theory Spec2Isabelle
  imports Complex_Main "HOL-Library.Multiset"
begin

section \<open>Matrices over exact real arithmetic\<close>

text \<open>
  The numeric code of \<^verbatim>\<open>cnmf.py\<close> works on numpy arrays and torch tensors. A vector is a
  list of reals and a matrix is the list of its rows. In this first part arithmetic is exact:
  it is the code with the rounding and the overflow of the floats left out, and it is what the
  statements "over exact arithmetic" are about. A division by zero, which numpy and torch
  answer with inf or nan instead of raising, is answered with \<open>None\<close>, and the run is reported
  as \<open>NonFinite\<close>. Two places are modelled with their floats, because statements depend on
  them: the neighbourhood size of the consensus, a truncated float64 quotient
  (\<open>n_neighbors_of\<close>), and \<^verbatim>\<open>fit_H_online\<close> as a whole, with the range and the special values of
  float32 (\<open>fit_H_online32\<close>). Shapes are those of the lists; all statements below are about
  rectangular matrices of compatible shapes (torch and numpy raise on the others).
\<close>

type_synonym vec = "real list"
type_synonym matrix = "real list list"

text \<open>
  What a run can end with instead of a result. \<open>NonFinite\<close> is not an exception of the code:
  it marks a run in which an inf or nan appears, which the model does not follow further (a
  scikit-learn routine given a nan raises ValueError; torch and numpy carry it along). The
  others are exceptions: \<open>RowCountMismatch\<close> is the ValueError of line 87,
  \<open>ZeroComponentsRemain\<close> the RuntimeError of line 1080, \<open>BetaLossInvalid\<close> the ValueError of
  line 951, \<open>RangeStepZero\<close>, \<open>ZeroDivision\<close> and \<open>FloatOverflow\<close> (the OverflowError of \<^verbatim>\<open>int(inf)\<close>)
  are Python's own, and the remaining ones are raised inside numpy, pandas and scikit-learn.
\<close>

datatype error =
    NonFinite
  | RowCountMismatch
  | RangeStepZero
  | ZeroDivision
  | FloatOverflow
  | EmptyInput
  | KthOutOfBounds
  | UnalignableIndexer
  | ZeroComponentsRemain
  | BetaLossInvalid
  | KMeansError
  | SilhouetteError
  | LaterStageError

definition dot :: "vec \<Rightarrow> vec \<Rightarrow> real" where
  "dot u v = sum_list (map2 (*) u v)"

text \<open>\<^verbatim>\<open>A @ B.T\<close>: entry \<open>(i, j)\<close> is the dot product of row \<open>i\<close> of \<open>A\<close> and row \<open>j\<close> of \<open>B\<close>.\<close>

definition matmul_T :: "matrix \<Rightarrow> matrix \<Rightarrow> matrix" where
  "matmul_T A B = map (\<lambda>a. map (\<lambda>b. dot a b) B) A"

text \<open>\<^verbatim>\<open>A @ B\<close>: rows of \<open>A\<close> against the columns of \<open>B\<close>.\<close>

definition matmul :: "matrix \<Rightarrow> matrix \<Rightarrow> matrix" where
  "matmul A B = map (\<lambda>a. map (\<lambda>c. dot a c) (transpose B)) A"

definition mat_add :: "matrix \<Rightarrow> matrix \<Rightarrow> matrix" where
  "mat_add A B = map2 (map2 (+)) A B"

definition mat_sub :: "matrix \<Rightarrow> matrix \<Rightarrow> matrix" where
  "mat_sub A B = map2 (map2 (-)) A B"

definition mat_scale :: "real \<Rightarrow> matrix \<Rightarrow> matrix" where
  "mat_scale c A = map (map ((*) c)) A"

text \<open>\<^verbatim>\<open>(M ** 2).sum()\<close>, the squared Frobenius norm, and \<^verbatim>\<open>torch.norm(M)\<close>.\<close>

definition sum_sq :: "matrix \<Rightarrow> real" where
  "sum_sq M = sum_list (map (\<lambda>r. sum_list (map (\<lambda>v. v\<^sup>2) r)) M)"

definition fro_norm :: "matrix \<Rightarrow> real" where
  "fro_norm M = sqrt (sum_sq M)"

definition nonneg :: "matrix \<Rightarrow> bool" where
  "nonneg M = list_all (list_all (\<lambda>v. 0 \<le> v)) M"

text \<open>\<open>M\<close> has \<open>n\<close> rows of \<open>c\<close> entries each.\<close>

definition has_shape :: "nat \<Rightarrow> nat \<Rightarrow> matrix \<Rightarrow> bool" where
  "has_shape n c M = (length M = n \<and> list_all (\<lambda>r. length r = c) M)"

text \<open>Elementwise division of floats: a zero divisor gives inf or nan, here \<open>None\<close>.\<close>

definition fdiv :: "real \<Rightarrow> real \<Rightarrow> real option" where
  "fdiv a b = (if b = 0 then None else Some (a / b))"

text \<open>A tensor some of whose entries are inf or nan is not a matrix of reals.\<close>

definition all_finite :: "real option list list \<Rightarrow> matrix option" where
  "all_finite M = those (map those M)"

section \<open>fit\_H\_online: chunked multiplicative updates for H with W fixed\<close>

text \<open>
  The keyword arguments of \<^verbatim>\<open>fit_H_online\<close>. \<open>chunk_size\<close> and \<open>chunk_max_iter\<close> are
  Python ints; a \<open>chunk_size\<close> of zero or below never moves \<open>idx\<close> past \<open>n\<close> and a
  \<open>chunk_max_iter\<close> of zero or below runs no inner iteration, so both are naturals here,
  0 standing for every non-positive value.
\<close>

record nnls_params =
  chunk_size :: nat
  chunk_max_iter :: nat
  h_tol :: real
  l1_reg_H :: real
  l2_reg_H :: real
  epsilon :: real

text \<open>The defaults of the signature (lines 264--269).\<close>

definition default_params :: nnls_params where
  "default_params = \<lparr>chunk_size = 5000, chunk_max_iter = 200, h_tol = 5/100, l1_reg_H = 0,
     l2_reg_H = 0, epsilon = 1/10^16\<rparr>"

text \<open>\<^verbatim>\<open>.clamp(min=0.0)\<close>\<close>

definition clamp_min0 :: "matrix \<Rightarrow> matrix" where
  "clamp_min0 M = map (map (max 0)) M"

text \<open>
  Lines 357--362: the numerator \<^verbatim>\<open>x @ W_t.T\<close>, shifted by the L1 penalty and clamped at
  zero when \<^verbatim>\<open>l1_reg_H > 0\<close>.
\<close>

definition mu_numer :: "nnls_params \<Rightarrow> matrix \<Rightarrow> matrix \<Rightarrow> matrix" where
  "mu_numer p W x =
     (let xWT = matmul_T x W
      in if l1_reg_H p > 0 then clamp_min0 (map (map (\<lambda>v. v - l1_reg_H p)) xWT) else xWT)"

text \<open>Lines 366--368: the denominator \<^verbatim>\<open>h @ WWT\<close>, plus \<^verbatim>\<open>l2_reg_H * h\<close> when that is positive.\<close>

definition mu_denom :: "nnls_params \<Rightarrow> matrix \<Rightarrow> matrix \<Rightarrow> matrix" where
  "mu_denom p WWT h =
     (let denom = matmul h WWT
      in if l2_reg_H p > 0 then mat_add denom (mat_scale (l2_reg_H p) h) else denom)"

text \<open>
  Lines 370--372. \<^verbatim>\<open>rates = numer / denom\<close> divides every entry, \<^verbatim>\<open>rates[denom < epsilon] = 0.0\<close>
  then overwrites the masked entries, and \<^verbatim>\<open>h_new = h * rates\<close>.
\<close>

definition mu_rates :: "nnls_params \<Rightarrow> matrix \<Rightarrow> matrix \<Rightarrow> real option list list" where
  "mu_rates p numer denom =
     (let rates = map2 (map2 fdiv) numer denom
      in map2 (map2 (\<lambda>de r. if de < epsilon p then Some 0 else r)) denom rates)"

definition mu_h_new :: "matrix \<Rightarrow> real option list list \<Rightarrow> real option list list" where
  "mu_h_new h rates = map2 (map2 (\<lambda>hv r. map_option ((*) hv) r)) h rates"

text \<open>One inner iteration up to \<^verbatim>\<open>h_new\<close>; the model goes on only with a finite \<open>h_new\<close>.\<close>

definition mu_step :: "nnls_params \<Rightarrow> matrix \<Rightarrow> matrix \<Rightarrow> matrix \<Rightarrow> matrix option" where
  "mu_step p WWT numer h =
     (let denom = mu_denom p WWT h;
          rates = mu_rates p numer denom
      in all_finite (mu_h_new h rates))"

text \<open>
  Lines 375--378: \<^verbatim>\<open>rel = torch.norm(h_new - h) / (torch.norm(h) + epsilon)\<close> and the test
  \<^verbatim>\<open>rel < h_tol\<close>. With a zero divisor \<open>rel\<close> is nan or inf and the comparison is false.
\<close>

definition converged :: "nnls_params \<Rightarrow> matrix \<Rightarrow> matrix \<Rightarrow> bool" where
  "converged p h h_new =
     (let d = fro_norm h + epsilon p
      in d \<noteq> 0 \<and> fro_norm (mat_sub h_new h) / d < h_tol p)"

text \<open>The inner loop \<^verbatim>\<open>for _ in range(chunk_max_iter)\<close>, by the number of iterations left.\<close>

fun mu_loop :: "nnls_params \<Rightarrow> matrix \<Rightarrow> matrix \<Rightarrow> nat \<Rightarrow> matrix \<Rightarrow> matrix option" where
  "mu_loop p WWT numer 0 h = Some h"
| "mu_loop p WWT numer (Suc m) h =
     (case mu_step p WWT numer h of
        None \<Rightarrow> None
      | Some h_new \<Rightarrow> if converged p h h_new then Some h_new else mu_loop p WWT numer m h_new)"

text \<open>One chunk: lines 353--378 for the rows \<open>x\<close> of \<open>X\<close> and \<open>h\<close> of \<open>H\<close> in the slice.\<close>

definition mu_chunk :: "nnls_params \<Rightarrow> matrix \<Rightarrow> matrix \<Rightarrow> matrix \<Rightarrow> matrix \<Rightarrow> matrix option" where
  "mu_chunk p W WWT x h = mu_loop p WWT (mu_numer p W x) (chunk_max_iter p) h"

text \<open>
  The outer loop \<^verbatim>\<open>while idx < n\<close>. It does not return when \<open>chunk_size\<close> is 0 and \<open>X\<close> has a
  row, so it is a partial function: \<open>None\<close> is "does not return". \<^verbatim>\<open>H_t[sl] = h\<close> replaces the
  rows of the slice.
\<close>

partial_function (option) chunk_loop ::
  "nnls_params \<Rightarrow> matrix \<Rightarrow> matrix \<Rightarrow> matrix \<Rightarrow> nat \<Rightarrow> matrix \<Rightarrow> (error + matrix) option" where
  "chunk_loop p X W WWT idx H_t =
     (if idx < length X then
        (case mu_chunk p W WWT (take (chunk_size p) (drop idx X)) (take (chunk_size p) (drop idx H_t)) of
           None \<Rightarrow> Some (Inl NonFinite)
         | Some h \<Rightarrow>
             chunk_loop p X W WWT (idx + chunk_size p)
               (take idx H_t @ h @ drop (idx + chunk_size p) H_t))
      else Some (Inr H_t))"

text \<open>
  Lines 341--345: the initial \<open>H_t\<close>. \<open>rnd\<close> is the matrix \<^verbatim>\<open>torch.rand((n, k))\<close> draws when
  \<open>H_init\<close> is \<open>None\<close> (\<open>n\<close> rows of \<open>k\<close> entries in \<open>[0, 1)\<close>); a given \<open>H_init\<close> is clamped
  at zero.
\<close>

definition init_H :: "matrix option \<Rightarrow> matrix \<Rightarrow> matrix" where
  "init_H H_init rnd = (case H_init of None \<Rightarrow> rnd | Some H0 \<Rightarrow> clamp_min0 H0)"

text \<open>\<^verbatim>\<open>fit_H_online(X, W, H_init, ...)\<close>, with \<open>W W\<^sup>T\<close> computed once.\<close>

definition fit_H_online ::
  "matrix \<Rightarrow> matrix \<Rightarrow> matrix option \<Rightarrow> matrix \<Rightarrow> nnls_params \<Rightarrow> (error + matrix) option" where
  "fit_H_online X W H_init rnd p =
     (let H_t = init_H H_init rnd;
          WWT = matmul_T W W
      in chunk_loop p X W WWT 0 H_t)"

text \<open>
  The reconstruction error of a chunk, \<open>\<parallel>x - h W\<parallel>\<close> in the Frobenius norm: the quantity the
  specification follows through the inner iterations (the code does not compute it).
\<close>

definition recon_error :: "matrix \<Rightarrow> matrix \<Rightarrow> matrix \<Rightarrow> real" where
  "recon_error x h W = fro_norm (mat_sub x (matmul h W))"

section \<open>efficient\_ols\_all\_cols: ordinary least squares from batched normal equations\<close>

text \<open>
  \<^verbatim>\<open>X.shape\<close>: the number of rows and of columns. A list of rows has no column count of its
  own when it is empty; an array with no row is taken to have no column.
\<close>

definition nrows :: "matrix \<Rightarrow> nat" where
  "nrows M = length M"

definition ncols :: "matrix \<Rightarrow> nat" where
  "ncols M = (case M of [] \<Rightarrow> 0 | r # _ \<Rightarrow> length r)"

text \<open>\<^verbatim>\<open>np.zeros((r, c))\<close>\<close>

definition zeros :: "nat \<Rightarrow> nat \<Rightarrow> matrix" where
  "zeros r c = replicate r (replicate c 0)"

text \<open>
  \<^verbatim>\<open>range(start, stop, step)\<close> for a positive step, and \<^verbatim>\<open>range(0, stop, step)\<close> for any int:
  a zero step raises ValueError and a negative one gives the empty range.
\<close>

function range_from :: "nat \<Rightarrow> nat \<Rightarrow> nat \<Rightarrow> nat list" where
  "range_from start stop step =
     (if start < stop \<and> 0 < step then start # range_from (start + step) stop step else [])"
  by pat_completeness auto
termination
  by (relation "measure (\<lambda>(start, stop, step). stop - start)") auto

definition py_range0 :: "nat \<Rightarrow> int \<Rightarrow> error + nat list" where
  "py_range0 stop step =
     (if step = 0 then Inl RangeStepZero
      else if step < 0 then Inr []
      else Inr (range_from 0 stop (nat step)))"

text \<open>
  Lines 90--96. \<^verbatim>\<open>get_mean_var\<close> returns the \<^verbatim>\<open>mean_\<close> and \<^verbatim>\<open>var_\<close> of a scikit-learn
  \<^verbatim>\<open>StandardScaler\<close> fitted on \<open>Y\<close>; the scaler is outside the repository and is the parameter
  \<open>scaler\<close>. Variances below \<open>1e-12\<close> are raised to it, and the standard deviation is the root.
\<close>

definition get_mean_var :: "(matrix \<Rightarrow> vec \<times> vec) \<Rightarrow> matrix \<Rightarrow> vec \<times> vec" where
  "get_mean_var scaler X = scaler X"

definition floor_var :: "vec \<Rightarrow> vec" where
  "floor_var varY = map (\<lambda>v. if v < 1 / 10 ^ 12 then 1 / 10 ^ 12 else v) varY"

definition ols_scaling :: "(matrix \<Rightarrow> vec \<times> vec) \<Rightarrow> matrix \<Rightarrow> bool \<Rightarrow> (vec \<times> vec) option" where
  "ols_scaling scaler Y normalize_y =
     (if normalize_y
      then (let (meanY, varY) = get_mean_var scaler Y in Some (meanY, map sqrt (floor_var varY)))
      else None)"

text \<open>Line 116: \<^verbatim>\<open>(Y_batch - meanY) / stdY\<close>, the vectors broadcast along the rows.\<close>

definition normalize_rows :: "vec \<Rightarrow> vec \<Rightarrow> matrix \<Rightarrow> matrix" where
  "normalize_rows meanY stdY Y_batch =
     map (\<lambda>row. map2 (\<lambda>y (m, s). (y - m) / s) row (zip meanY stdY)) Y_batch"

text \<open>
  The body of the loop, lines 104--120, for one \<open>start_row\<close>: \<open>scaling\<close> is \<open>Some (meanY, stdY)\<close> when
  \<open>normalize_y\<close> is set. A sparse \<open>Y\<close> is densified batch by batch, which does not change its
  entries.
\<close>

definition ols_batch ::
  "matrix \<Rightarrow> matrix \<Rightarrow> nat \<Rightarrow> (vec \<times> vec) option \<Rightarrow> nat \<Rightarrow> matrix \<times> matrix \<Rightarrow> matrix \<times> matrix" where
  "ols_batch X Y batch_size scaling start_row acc =
     (let end_row = min (start_row + batch_size) (nrows X);
          X_batch = take (end_row - start_row) (drop start_row X);
          Y_slice = take (end_row - start_row) (drop start_row Y);
          Y_batch = (case scaling of None \<Rightarrow> Y_slice
                     | Some (meanY, stdY) \<Rightarrow> normalize_rows meanY stdY Y_slice)
      in (mat_add (fst acc) (matmul (transpose X_batch) X_batch),
          mat_add (snd acc) (matmul (transpose X_batch) Y_batch)))"

text \<open>
  \<^verbatim>\<open>efficient_ols_all_cols(X, Y, batch_size, normalize_y)\<close>. \<open>lstsq\<close> is
  \<^verbatim>\<open>np.linalg.lstsq(XtX, XtY, rcond=None)[0]\<close>, a function of the two accumulated matrices.
\<close>

definition efficient_ols_all_cols ::
  "(matrix \<Rightarrow> vec \<times> vec) \<Rightarrow> (matrix \<Rightarrow> matrix \<Rightarrow> matrix) \<Rightarrow>
   matrix \<Rightarrow> matrix \<Rightarrow> int \<Rightarrow> bool \<Rightarrow> error + matrix" where
  "efficient_ols_all_cols scaler lstsq X Y batch_size normalize_y =
     (if nrows X \<noteq> nrows Y then Inl RowCountMismatch
      else
        let scaling = ols_scaling scaler Y normalize_y;
            XtX = zeros (ncols X) (ncols X);
            XtY = zeros (ncols X) (ncols Y)
        in case py_range0 (nrows X) batch_size of
             Inl e \<Rightarrow> Inl e
           | Inr starts \<Rightarrow>
               (let (XtX', XtY') = fold (ols_batch X Y (nat batch_size) scaling) starts (XtX, XtY)
                in Inr (lstsq XtX' XtY')))"

section \<open>cNMF.consensus: from the merged spectra to the consensus\<close>

subsection \<open>refit\_usage\<close>

text \<open>
  The entries of the run-parameter file that \<^verbatim>\<open>refit_usage\<close> reads. \<open>beta_loss\<close> is one of the
  three names, a number, or something else; \<^verbatim>\<open>use_gpu\<close> only picks the device.
\<close>

datatype beta_loss = Frobenius | KullbackLeibler | ItakuraSaito | NumericLoss real | OtherLoss

record refit_kwargs =
  beta_loss :: beta_loss
  online_chunk_size :: nat
  online_chunk_max_iter :: nat
  l1_ratio_H :: real

text \<open>
  Lines 939--976: an unknown loss raises; otherwise the usages are refitted by
  \<^verbatim>\<open>fit_H_online\<close> with \<^verbatim>\<open>h_tol = 0.05\<close>, no L2 term and \<^verbatim>\<open>epsilon = 1e-16\<close>.
\<close>

definition refit_usage ::
  "refit_kwargs \<Rightarrow> matrix \<Rightarrow> matrix \<Rightarrow> matrix option \<Rightarrow> matrix \<Rightarrow> (error + matrix) option" where
  "refit_usage kw X spectra usage rnd =
     (if beta_loss kw = OtherLoss then Some (Inl BetaLossInvalid)
      else fit_H_online X spectra usage rnd
             \<lparr>chunk_size = online_chunk_size kw, chunk_max_iter = online_chunk_max_iter kw,
              h_tol = 5/100, l1_reg_H = l1_ratio_H kw, l2_reg_H = 0, epsilon = 1/10^16\<rparr>)"

subsection \<open>Normalisation, local density and the density filter\<close>

text \<open>
  Line 1056: every row divided by its Euclidean norm. A row of norm zero becomes a row of nan,
  here \<open>None\<close>.
\<close>

definition l2_normalize :: "matrix \<Rightarrow> vec option list" where
  "l2_normalize M =
     map (\<lambda>row. those (map (\<lambda>v. fdiv v (sqrt (sum_list (map (\<lambda>u. u\<^sup>2) row)))) row)) M"

text \<open>
  Python's floats are IEEE doubles, and the result of \<^verbatim>\<open>*\<close> and \<^verbatim>\<open>/\<close> on them is the exact result
  rounded to the nearest double, ties to the even significand. \<open>float64 x\<close> is that double for the
  real \<open>x\<close>: 53 significant bits at the binary exponent of \<open>x\<close> (at least \<open>-1022\<close>, below which
  the doubles are equally spaced), and \<open>None\<close> when the rounded value is beyond the largest
  double, where the operation gives inf.
\<close>

definition pow2 :: "int \<Rightarrow> real" where
  "pow2 e = (if 0 \<le> e then 2 ^ nat e else 1 / 2 ^ nat (- e))"

definition round_half_even :: "real \<Rightarrow> int" where
  "round_half_even x =
     (let f = \<lfloor>x\<rfloor>; d = x - real_of_int f
      in if d < 1/2 then f else if 1/2 < d then f + 1 else if even f then f else f + 1)"

definition float64 :: "real \<Rightarrow> real option" where
  "float64 x =
     (if x = 0 then Some 0
      else let e = max \<lfloor>log 2 \<bar>x\<bar>\<rfloor> (- 1022) - 52;
               y = real_of_int (round_half_even (x / pow2 e)) * pow2 e
           in if pow2 1024 \<le> \<bar>y\<bar> then None else Some y)"

text \<open>
  Line 1053: \<^verbatim>\<open>int(local_neighborhood_size * merged_spectra.shape[0] / k)\<close>. The product and the
  quotient are float operations, each rounded; \<^verbatim>\<open>int\<close> truncates towards zero and raises
  OverflowError on inf. \<open>local_neighborhood_size\<close> is the value of the double passed in.
\<close>

definition int_trunc :: "real \<Rightarrow> int" where
  "int_trunc x = (if 0 \<le> x then \<lfloor>x\<rfloor> else \<lceil>x\<rceil>)"

definition n_neighbors_of :: "real \<Rightarrow> nat \<Rightarrow> nat \<Rightarrow> error + int" where
  "n_neighbors_of local_neighborhood_size num_rows k =
     (if k = 0 then Inl ZeroDivision
      else case float64 (local_neighborhood_size * real num_rows) of
             None \<Rightarrow> Inl FloatOverflow
           | Some product \<Rightarrow>
               (case float64 (product / real k) of
                  None \<Rightarrow> Inl FloatOverflow
                | Some q \<Rightarrow> Inr (int_trunc q)))"

text \<open>\<^verbatim>\<open>sklearn.metrics.pairwise.euclidean_distances(L)\<close>: the matrix of pairwise distances.\<close>

definition euclidean :: "vec \<Rightarrow> vec \<Rightarrow> real" where
  "euclidean a b = sqrt (sum_list (map2 (\<lambda>x y. (x - y)\<^sup>2) a b))"

definition euclidean_distances :: "matrix \<Rightarrow> matrix" where
  "euclidean_distances L = map (\<lambda>a. map (\<lambda>b. euclidean a b) L) L"

text \<open>
  \<^verbatim>\<open>np.argpartition(row, kth)[:kth]\<close> indexes the \<open>kth\<close> smallest entries of the row, in an order
  numpy does not fix; only their values are used (they are summed), and these are the first
  \<open>kth\<close> entries of the sorted row.
\<close>

definition smallest :: "nat \<Rightarrow> vec \<Rightarrow> vec" where
  "smallest m xs = take m (sort xs)"

text \<open>
  Lines 1065--1072. scikit-learn rejects an array with no row; numpy rejects a \<open>kth\<close> outside
  \<open>[-n, n)\<close> and counts a negative \<open>kth\<close> from the end, as the slice \<^verbatim>\<open>[:, :n_neighbors+1]\<close>
  does. The sum is divided by \<open>n_neighbors\<close>; for \<open>n_neighbors = 0\<close> numpy gives nan or inf.
\<close>

definition compute_local_density :: "int \<Rightarrow> matrix \<Rightarrow> error + real option list" where
  "compute_local_density n_neighbors L =
     (let topics_dist = euclidean_distances L;
          n = int (length L);
          kth = n_neighbors + 1
      in if length L = 0 then Inl EmptyInput
         else if kth < - n \<or> n \<le> kth then Inl KthOutOfBounds
         else Inr (map (\<lambda>row. fdiv (sum_list (smallest (nat (if kth < 0 then kth + n else kth)) row))
                                   (real_of_int n_neighbors))
                     topics_dist))"

text \<open>
  The files \<^verbatim>\<open>consensus\<close> reads: the merged spectra for \<open>k\<close>, the normalised counts, the cached
  local density for \<open>k\<close> when that file exists, and the run parameters. Rows are identified by
  their position. pandas matches the cached densities to the rows of the merged spectra by
  their labels; the cache is given here as the list of the densities it holds for the rows, in
  the order of the rows, and a cache that does not hold one density for each row cannot be
  matched.
\<close>

record consensus_files =
  merged_spectra :: matrix
  norm_counts :: matrix
  local_density_cache :: "real option list option"
  nmf_run_parameters :: refit_kwargs

text \<open>
  Lines 1061--1075: the cached density when there is one, else the computed one, which is then
  written to the cache. The first component is what is written.
\<close>

definition local_density_stage ::
  "consensus_files \<Rightarrow> int \<Rightarrow> vec option list \<Rightarrow> real option list option \<times> (error + real option list)" where
  "local_density_stage files n_neighbors l2_spectra =
     (case local_density_cache files of
        Some d \<Rightarrow> (None, Inr d)
      | None \<Rightarrow>
          (case those l2_spectra of
             None \<Rightarrow> (None, Inl NonFinite)
           | Some L \<Rightarrow>
               (case compute_local_density n_neighbors L of
                  Inl e \<Rightarrow> (None, Inl e)
                | Inr d \<Rightarrow> (Some d, Inr d))))"

text \<open>
  Line 1077: \<^verbatim>\<open>local_density.iloc[:, 0] < density_threshold\<close>; a comparison with nan or inf is
  false. Line 1078: the rows of \<^verbatim>\<open>l2_spectra\<close> where the filter is true.
\<close>

definition density_filter :: "real \<Rightarrow> real option list \<Rightarrow> bool list" where
  "density_filter density_threshold local_density =
     map (\<lambda>d. case d of None \<Rightarrow> False | Some v \<Rightarrow> v < density_threshold) local_density"

definition select_rows :: "bool list \<Rightarrow> 'a list \<Rightarrow> 'a list" where
  "select_rows keep rows = map snd (filter fst (zip keep rows))"

text \<open>
  Lines 1053--1080, up to the rows handed to the clustering, together with the density and
  the filter when they were computed. With \<^verbatim>\<open>skip_density_and_return_after_stats\<close> neither is.
  pandas refuses a filter that cannot be matched to the rows.
\<close>

definition filter_stage ::
  "consensus_files \<Rightarrow> nat \<Rightarrow> real \<Rightarrow> real \<Rightarrow> bool \<Rightarrow>
   real option list option \<times> (error + vec option list \<times> (real option list \<times> bool list) option)" where
  "filter_stage files k density_threshold local_neighborhood_size skip =
     (case n_neighbors_of local_neighborhood_size (length (merged_spectra files)) k of
        Inl e \<Rightarrow> (None, Inl e)
      | Inr n_neighbors \<Rightarrow>
          (let l2_spectra = l2_normalize (merged_spectra files)
           in if skip then (None, Inr (l2_spectra, None))
              else
                (case local_density_stage files n_neighbors l2_spectra of
                   (written, Inl e) \<Rightarrow> (written, Inl e)
                 | (written, Inr local_density) \<Rightarrow>
                     if length local_density \<noteq> length l2_spectra
                     then (written, Inl UnalignableIndexer)
                     else
                       (let flt = density_filter density_threshold local_density;
                            kept = select_rows flt l2_spectra
                        in if length kept = 0 then (written, Inl ZeroComponentsRemain)
                           else (written, Inr (kept, Some (local_density, flt)))))))"

subsection \<open>Clustering, medians, refit and the statistics\<close>

text \<open>
  What the code takes from outside the repository: \<^verbatim>\<open>KMeans(n_clusters=k, n_init=10,
  random_state=1).fit(L).labels_\<close>, pandas' \<^verbatim>\<open>groupby(labels).median()\<close>, scikit-learn's
  \<^verbatim>\<open>silhouette_score\<close>, and the draw of \<^verbatim>\<open>torch.rand\<close> for the initial usages. \<open>None\<close> is a
  raised exception. \<open>stages_8_to_11\<close> stands for lines 1112--1256 (reordering, the TPM and
  z-score spectra, the final refit, and every file and figure saved there); it is given
  everything computed so far.
\<close>

datatype 'f later = LaterRaised | LaterDone 'f

record 'f externals =
  kmeans_labels :: "nat \<Rightarrow> matrix \<Rightarrow> nat list option"
  groupby_median :: "nat list \<Rightarrow> matrix \<Rightarrow> matrix"
  silhouette_score :: "matrix \<Rightarrow> nat list \<Rightarrow> real option"
  torch_rand :: matrix
  stages_8_to_11 ::
    "nat \<Rightarrow> real \<Rightarrow> matrix \<Rightarrow> (real option list \<times> bool list) option \<Rightarrow> nat list \<Rightarrow> matrix \<Rightarrow>
     matrix \<Rightarrow> 'f later option"

record consensus_stats =
  stats_k :: nat
  stats_local_density_threshold :: real
  stats_silhouette :: real
  stats_prediction_error :: real

datatype 'f outcome = ConsensusStats consensus_stats | Completed 'f

text \<open>Line 1090: every row divided by its sum.\<close>

definition normalize_sum :: "matrix \<Rightarrow> vec option list" where
  "normalize_sum M = map (\<lambda>row. those (map (\<lambda>v. fdiv v (sum_list row)) row)) M"

text \<open>
  Lines 1082--1110 and the call of what follows. The cluster labels are \<^verbatim>\<open>labels_ + 1\<close>. In the
  statistics-only mode the prediction error is \<^verbatim>\<open>((norm_counts.X - rf_usages.dot(median_spectra))**2).sum().sum()\<close>.
\<close>

definition after_filter ::
  "'f externals \<Rightarrow> consensus_files \<Rightarrow> nat \<Rightarrow> real \<Rightarrow> bool \<Rightarrow>
   (real option list \<times> bool list) option \<Rightarrow> vec option list \<Rightarrow> (error + 'f outcome) option" where
  "after_filter ext files k density_threshold skip dens l2_spectra =
     (case those l2_spectra of
        None \<Rightarrow> Some (Inl NonFinite)
      | Some L \<Rightarrow>
          (case kmeans_labels ext k L of
             None \<Rightarrow> Some (Inl KMeansError)
           | Some km_labels \<Rightarrow>
               (let kmeans_cluster_labels = map Suc km_labels;
                    median_spectra = groupby_median ext kmeans_cluster_labels L
                in case those (normalize_sum median_spectra) of
                     None \<Rightarrow> Some (Inl NonFinite)
                   | Some median_spectra' \<Rightarrow>
                       (case refit_usage (nmf_run_parameters files) (norm_counts files)
                               median_spectra' None (torch_rand ext) of
                          None \<Rightarrow> None
                        | Some (Inl e) \<Rightarrow> Some (Inl e)
                        | Some (Inr rf_usages) \<Rightarrow>
                            if skip then
                              (case silhouette_score ext L kmeans_cluster_labels of
                                 None \<Rightarrow> Some (Inl SilhouetteError)
                               | Some silhouette \<Rightarrow>
                                   Some (Inr (ConsensusStats
                                     \<lparr>stats_k = k,
                                      stats_local_density_threshold = density_threshold,
                                      stats_silhouette = silhouette,
                                      stats_prediction_error =
                                        sum_sq (mat_sub (norm_counts files)
                                                  (matmul rf_usages median_spectra'))\<rparr>)))
                            else
                              (case stages_8_to_11 ext k density_threshold L dens
                                      kmeans_cluster_labels median_spectra' rf_usages of
                                 None \<Rightarrow> None
                               | Some LaterRaised \<Rightarrow> Some (Inl LaterStageError)
                               | Some (LaterDone f) \<Rightarrow> Some (Inr (Completed f)))))))"

text \<open>
  \<^verbatim>\<open>consensus(k, density_threshold, local_neighborhood_size, ...,
  skip_density_and_return_after_stats)\<close>: what is written to the density cache, and how the
  call ends (\<open>None\<close>: it does not return).
\<close>

definition consensus ::
  "'f externals \<Rightarrow> consensus_files \<Rightarrow> nat \<Rightarrow> real \<Rightarrow> real \<Rightarrow> bool \<Rightarrow>
   real option list option \<times> (error + 'f outcome) option" where
  "consensus ext files k density_threshold local_neighborhood_size skip =
     (case filter_stage files k density_threshold local_neighborhood_size skip of
        (written, Inl e) \<Rightarrow> (written, Some (Inl e))
      | (written, Inr (l2_spectra, dens)) \<Rightarrow>
          (written, after_filter ext files k density_threshold skip dens l2_spectra))"

subsection \<open>The unfiltered case of the specification\<close>

text \<open>
  The specification compares the consensus with "the unfiltered case". That case is not a path
  of the code; it is written here after the specification's words: the pipeline with the
  density computed or loaded as usual and no row dropped.
\<close>

definition unfiltered_stage ::
  "consensus_files \<Rightarrow> nat \<Rightarrow> real \<Rightarrow>
   real option list option \<times> (error + vec option list \<times> (real option list \<times> bool list) option)" where
  "unfiltered_stage files k local_neighborhood_size =
     (case n_neighbors_of local_neighborhood_size (length (merged_spectra files)) k of
        Inl e \<Rightarrow> (None, Inl e)
      | Inr n_neighbors \<Rightarrow>
          (let l2_spectra = l2_normalize (merged_spectra files)
           in case local_density_stage files n_neighbors l2_spectra of
                (written, Inl e) \<Rightarrow> (written, Inl e)
              | (written, Inr local_density) \<Rightarrow>
                  (written, Inr (l2_spectra,
                     Some (local_density, replicate (length local_density) True)))))"

definition consensus_unfiltered ::
  "'f externals \<Rightarrow> consensus_files \<Rightarrow> nat \<Rightarrow> real \<Rightarrow> real \<Rightarrow>
   real option list option \<times> (error + 'f outcome) option" where
  "consensus_unfiltered ext files k density_threshold local_neighborhood_size =
     (case unfiltered_stage files k local_neighborhood_size of
        (written, Inl e) \<Rightarrow> (written, Some (Inl e))
      | (written, Inr (l2_spectra, dens)) \<Rightarrow>
          (written, after_filter ext files k density_threshold False dens l2_spectra))"

section \<open>fit\_H\_online in float32 arithmetic\<close>

text \<open>
  Lines 333--336 move \<open>X\<close>, \<open>W\<close> and \<open>H_init\<close> to \<^verbatim>\<open>torch.float32\<close>, and everything up to the
  returned array is computed there. A float32 value is a finite number, an infinity or nan.
  An operation on finite numbers gives the exact result rounded to float32; the rounding is the
  parameter \<open>rd\<close> (round to nearest, ties to even, in torch), and a rounded result beyond the
  largest float32 is an infinity. On the special values the operations follow IEEE 754:
  \<open>inf - inf\<close>, \<open>0 * inf\<close>, \<open>0 / 0\<close> and \<open>inf / inf\<close> are nan, nan propagates, and every
  comparison with nan is false. The two signed zeros are not distinguished. Nothing raises.
\<close>

datatype fl = Fin real | PInf | NInf | NaN

text \<open>The largest float32, \<open>(2 - 2\<^sup>-\<^sup>2\<^sup>3) \<sqdot> 2\<^sup>1\<^sup>2\<^sup>7\<close>.\<close>

definition f32_max :: real where
  "f32_max = (2 - 1 / 2^23) * 2^127"

definition to_f32 :: "(real \<Rightarrow> real) \<Rightarrow> real \<Rightarrow> fl" where
  "to_f32 rd x = (let y = rd x in if f32_max < y then PInf else if y < - f32_max then NInf else Fin y)"


fun fadd :: "(real \<Rightarrow> real) \<Rightarrow> fl \<Rightarrow> fl \<Rightarrow> fl" where
  "fadd rd (Fin x) (Fin y) = to_f32 rd (x + y)"
| "fadd rd NaN b = NaN"
| "fadd rd a NaN = NaN"
| "fadd rd PInf NInf = NaN"
| "fadd rd NInf PInf = NaN"
| "fadd rd PInf b = PInf"
| "fadd rd a PInf = PInf"
| "fadd rd NInf b = NInf"
| "fadd rd a NInf = NInf"


fun fmul :: "(real \<Rightarrow> real) \<Rightarrow> fl \<Rightarrow> fl \<Rightarrow> fl" where
  "fmul rd (Fin x) (Fin y) = to_f32 rd (x * y)"
| "fmul rd NaN b = NaN"
| "fmul rd a NaN = NaN"
| "fmul rd (Fin x) PInf = (if x = 0 then NaN else if 0 < x then PInf else NInf)"
| "fmul rd (Fin x) NInf = (if x = 0 then NaN else if 0 < x then NInf else PInf)"
| "fmul rd PInf (Fin y) = (if y = 0 then NaN else if 0 < y then PInf else NInf)"
| "fmul rd NInf (Fin y) = (if y = 0 then NaN else if 0 < y then NInf else PInf)"
| "fmul rd PInf PInf = PInf"
| "fmul rd NInf NInf = PInf"
| "fmul rd PInf NInf = NInf"
| "fmul rd NInf PInf = NInf"

fun fdivide :: "(real \<Rightarrow> real) \<Rightarrow> fl \<Rightarrow> fl \<Rightarrow> fl" where
  "fdivide rd (Fin x) (Fin y) =
     (if y = 0 then (if x = 0 then NaN else if 0 < x then PInf else NInf) else to_f32 rd (x / y))"
| "fdivide rd NaN b = NaN"
| "fdivide rd a NaN = NaN"
| "fdivide rd (Fin x) PInf = Fin 0"
| "fdivide rd (Fin x) NInf = Fin 0"
| "fdivide rd PInf (Fin y) = (if 0 \<le> y then PInf else NInf)"
| "fdivide rd NInf (Fin y) = (if 0 \<le> y then NInf else PInf)"
| "fdivide rd PInf PInf = NaN"
| "fdivide rd PInf NInf = NaN"
| "fdivide rd NInf PInf = NaN"
| "fdivide rd NInf NInf = NaN"

text \<open>\<^verbatim>\<open>a < b\<close> on floats.\<close>

fun fless :: "fl \<Rightarrow> fl \<Rightarrow> bool" where
  "fless (Fin x) (Fin y) = (x < y)"
| "fless NaN b = False"
| "fless a NaN = False"
| "fless PInf b = False"
| "fless a NInf = False"
| "fless NInf b = True"
| "fless a PInf = True"





















section \<open>Derived notions used in the proofs\<close>

text \<open>
  The multiplicative update read row by row and entry by entry. \<open>denom_row\<close> is one row of
  \<open>mu_denom\<close>, \<open>entry_update\<close> one entry of \<open>mu_h_new\<close>; the \<open>_fin\<close> versions are the update
  when \<open>epsilon\<close> is positive, where every division is by a non-zero number.
\<close>

definition denom_row :: "nnls_params \<Rightarrow> matrix \<Rightarrow> vec \<Rightarrow> vec" where
  "denom_row p WWT hr =
     (let d = map (\<lambda>c. dot hr c) (transpose WWT)
      in if l2_reg_H p > 0 then map2 (+) d (map ((*) (l2_reg_H p)) hr) else d)"

definition entry_update :: "nnls_params \<Rightarrow> real \<Rightarrow> real \<Rightarrow> real \<Rightarrow> real option" where
  "entry_update p hv nu de =
     (if de < epsilon p then Some 0 else map_option ((*) hv) (fdiv nu de))"

definition row_update :: "nnls_params \<Rightarrow> matrix \<Rightarrow> vec \<Rightarrow> vec \<Rightarrow> real option list" where
  "row_update p WWT nr hr =
     map2 (\<lambda>hv (nu, de). entry_update p hv nu de) hr (zip nr (denom_row p WWT hr))"

definition mu_update :: "nnls_params \<Rightarrow> matrix \<Rightarrow> matrix \<Rightarrow> matrix \<Rightarrow> real option list list" where
  "mu_update p WWT numer h = map2 (row_update p WWT) numer h"

definition entry_fin :: "nnls_params \<Rightarrow> real \<Rightarrow> real \<Rightarrow> real \<Rightarrow> real" where
  "entry_fin p hv nu de = (if de < epsilon p then 0 else hv * (nu / de))"

definition row_fin :: "nnls_params \<Rightarrow> matrix \<Rightarrow> vec \<Rightarrow> vec \<Rightarrow> vec" where
  "row_fin p WWT nr hr =
     map2 (\<lambda>hv (nu, de). entry_fin p hv nu de) hr (zip nr (denom_row p WWT hr))"

definition step_fin :: "nnls_params \<Rightarrow> matrix \<Rightarrow> matrix \<Rightarrow> matrix \<Rightarrow> matrix" where
  "step_fin p WWT numer h = map2 (row_fin p WWT) numer h"


text \<open>
  With a positive \<open>epsilon\<close> the inner loop, a chunk and the pass over all chunks compute
  \<open>loop_fin\<close>, \<open>chunk_fin\<close> and \<open>chunks_fin\<close>. \<open>numer_row\<close> is one row of \<open>mu_numer\<close>, and
  \<open>row_fit\<close> is \<open>chunk_max_iter\<close> updates of one row on its own.
\<close>

fun loop_fin :: "nnls_params \<Rightarrow> matrix \<Rightarrow> matrix \<Rightarrow> nat \<Rightarrow> matrix \<Rightarrow> matrix" where
  "loop_fin p WWT numer 0 h = h"
| "loop_fin p WWT numer (Suc m) h =
     (if converged p h (step_fin p WWT numer h) then step_fin p WWT numer h
      else loop_fin p WWT numer m (step_fin p WWT numer h))"

definition chunk_fin :: "nnls_params \<Rightarrow> matrix \<Rightarrow> matrix \<Rightarrow> matrix \<Rightarrow> matrix \<Rightarrow> matrix" where
  "chunk_fin p W WWT x h = loop_fin p WWT (mu_numer p W x) (chunk_max_iter p) h"

function chunks_fin :: "nnls_params \<Rightarrow> matrix \<Rightarrow> matrix \<Rightarrow> matrix \<Rightarrow> matrix \<Rightarrow> matrix" where
  "chunks_fin p W WWT X H =
     (if X = [] \<or> chunk_size p = 0 then H
      else chunk_fin p W WWT (take (chunk_size p) X) (take (chunk_size p) H)
           @ chunks_fin p W WWT (drop (chunk_size p) X) (drop (chunk_size p) H))"
  by pat_completeness auto
termination
  by (relation "measure (\<lambda>(p, W, WWT, X, H). length X)") auto

definition numer_row :: "nnls_params \<Rightarrow> matrix \<Rightarrow> vec \<Rightarrow> vec" where
  "numer_row p W xr =
     (if l1_reg_H p > 0 then map (\<lambda>w. max 0 (dot xr w - l1_reg_H p)) W else map (\<lambda>w. dot xr w) W)"

definition row_fit :: "nnls_params \<Rightarrow> matrix \<Rightarrow> matrix \<Rightarrow> vec \<Rightarrow> vec \<Rightarrow> vec" where
  "row_fit p W WWT xr hr = ((row_fin p WWT (numer_row p W xr)) ^^ chunk_max_iter p) hr"

declare chunks_fin.simps [simp del]

text \<open>
  For the least-squares solver: \<open>gram p t A B\<close> is \<open>A\<^sup>T B\<close> as a \<open>p \<times> t\<close> matrix of sums over the
  rows, and \<open>ols_targets\<close> is \<open>Y\<close> as the loop sees it, normalised when a scaling is given.
\<close>

definition gram :: "nat \<Rightarrow> nat \<Rightarrow> matrix \<Rightarrow> matrix \<Rightarrow> matrix" where
  "gram p t A B =
     map (\<lambda>i. map (\<lambda>j. sum_list (map2 (\<lambda>a b. a ! i * b ! j) A B)) [0..<t]) [0..<p]"

definition ols_targets :: "(vec \<times> vec) option \<Rightarrow> matrix \<Rightarrow> matrix" where
  "ols_targets scaling Y =
     (case scaling of None \<Rightarrow> Y | Some (meanY, stdY) \<Rightarrow> normalize_rows meanY stdY Y)"

text \<open>
  The local density in the words of the specification, "the mean distance to the \<open>n\<close> nearest
  other rows" and "the sum of the \<open>n + 1\<close> smallest entries of the row": \<open>lowest m A f S\<close> says
  that \<open>S\<close> is a set of \<open>m\<close> indices of \<open>A\<close> at which \<open>f\<close> is lowest, that is, no index of \<open>A\<close>
  outside \<open>S\<close> has a smaller value than an index inside. Ties make several such sets; they have
  the same sum.
\<close>

definition lowest :: "nat \<Rightarrow> nat set \<Rightarrow> (nat \<Rightarrow> real) \<Rightarrow> nat set \<Rightarrow> bool" where
  "lowest m A f S = (S \<subseteq> A \<and> card S = m \<and> (\<forall>j\<in>S. \<forall>j'\<in>A - S. f j \<le> f j'))"

text \<open>
  For float32 tensors: \<open>fge0 v\<close> is the comparison \<^verbatim>\<open>v >= 0\<close> (false on nan), \<open>fshape\<close> the shape,
  \<open>not_negative\<close> and \<open>zero_or_nan\<close> the two sets of values that the update cannot leave.
\<close>

definition fge0 :: "fl \<Rightarrow> bool" where
  "fge0 v = (case v of Fin x \<Rightarrow> 0 \<le> x | PInf \<Rightarrow> True | NInf \<Rightarrow> False | NaN \<Rightarrow> False)"


definition not_negative :: "fl \<Rightarrow> bool" where
  "not_negative v = (fge0 v \<or> v = NaN)"

definition zero_or_nan :: "fl \<Rightarrow> bool" where
  "zero_or_nan v = (v = Fin 0 \<or> v = NaN)"


text \<open>
  A small run used for the concrete statements: four replicate spectra in two identical
  pairs, \<open>k = 2\<close>. \<open>ex_ext\<close> holds what the outside routines return on it: the two clusters, their
  medians, and the silhouette score 1 of two clusters of coinciding points.
\<close>

definition ex_spectra :: matrix where
  "ex_spectra = [[1, 0], [1, 0], [0, 1], [0, 1]]"

definition ex_files :: consensus_files where
  "ex_files = \<lparr>merged_spectra = ex_spectra, norm_counts = [[1, 0], [0, 1]],
     local_density_cache = None,
     nmf_run_parameters = \<lparr>beta_loss = Frobenius, online_chunk_size = 5000,
       online_chunk_max_iter = 200, l1_ratio_H = 0\<rparr>\<rparr>"

definition ex_ext :: "unit externals" where
  "ex_ext = \<lparr>kmeans_labels = (\<lambda>k L. Some [0, 0, 1, 1]),
     groupby_median = (\<lambda>labels L. [[1, 0], [0, 1]]),
     silhouette_score = (\<lambda>L labels. Some 1),
     torch_rand = [[1/2, 1/2], [1/2, 1/2]],
     stages_8_to_11 = (\<lambda>k thr L dens labels M U. Some (LaterDone ()))\<rparr>"

text \<open>
  Four spectra of Euclidean norm one whose pairwise distances are rational: \<open>10/13\<close> between the
  first two, \<open>6/5\<close> from the first to the last two, \<open>32/65\<close> from the second to the last two,
  which coincide.
\<close>

definition ex_unit_rows :: matrix where
  "ex_unit_rows = [[1, 0], [119/169, 120/169], [7/25, 24/25], [7/25, 24/25]]"

section \<open>The multiplicative update, row by row\<close>

lemma those_Some_iff: "those xs = Some ys \<longleftrightarrow> xs = map Some ys"
  by (induction xs arbitrary: ys) (auto split: option.splits)

lemma all_finite_Some_iff: "all_finite M = Some N \<longleftrightarrow> M = map (map Some) N"
proof -
  have "those (map those M) = Some N \<longleftrightarrow> map those M = map Some N"
    by (rule those_Some_iff)
  also have "\<dots> \<longleftrightarrow> M = map (map Some) N"
  proof (induction M arbitrary: N)
    case Nil then show ?case by auto
  next
    case (Cons r M) then show ?case by (cases N) (auto simp: those_Some_iff)
  qed
  finally show ?thesis by (simp add: all_finite_def)
qed

lemma map2_same: "map2 f (map g xs) (map k xs) = map (\<lambda>x. f (g x) (k x)) xs"
  by (induction xs) auto

lemma mu_denom_rows: "mu_denom p WWT h = map (denom_row p WWT) h"
  by (simp add: mu_denom_def denom_row_def matmul_def mat_add_def mat_scale_def map2_same Let_def)

lemma row_bridge:
  "map2 (\<lambda>hv r. map_option ((*) hv) r) hr
      (map2 (\<lambda>de r. if de < epsilon p then Some 0 else r) dr (map2 fdiv nr dr))
   = map2 (\<lambda>hv (nu, de). entry_update p hv nu de) hr (zip nr dr)"
proof (induction hr arbitrary: nr dr)
  case Nil then show ?case by simp
next
  case (Cons a hr)
  show ?case
  proof (cases nr)
    case Nil then show ?thesis by simp
  next
    case nr: (Cons b nr')
    show ?thesis
    proof (cases dr)
      case Nil then show ?thesis by (simp add: nr)
    next
      case (Cons c dr')
      then show ?thesis using Cons.IH[of dr' nr'] by (simp add: nr entry_update_def)
    qed
  qed
qed

lemma mat_bridge:
  "map2 (map2 (\<lambda>hv r. map_option ((*) hv) r)) h
      (map2 (map2 (\<lambda>de r. if de < epsilon p then Some 0 else r)) (map D h)
         (map2 (map2 fdiv) numer (map D h)))
   = map2 (\<lambda>nr hr. map2 (\<lambda>hv (nu, de). entry_update p hv nu de) hr (zip nr (D hr))) numer h"
proof (induction h arbitrary: numer)
  case Nil then show ?case by simp
next
  case (Cons a h)
  show ?case
  proof (cases numer)
    case Nil then show ?thesis by simp
  next
    case (Cons b numer')
    then show ?thesis using Cons.IH[of numer'] by (simp add: row_bridge)
  qed
qed

lemma mu_h_new_rows:
  "mu_h_new h (mu_rates p numer (mu_denom p WWT h)) = mu_update p WWT numer h"
  unfolding mu_h_new_def mu_rates_def Let_def mu_denom_rows mat_bridge mu_update_def row_update_def ..

lemma mu_step_rows: "mu_step p WWT numer h = all_finite (mu_update p WWT numer h)"
  by (simp add: mu_step_def mu_h_new_rows)

lemma entry_update_fin:
  "0 < epsilon p \<Longrightarrow> entry_update p hv nu de = Some (entry_fin p hv nu de)"
  by (auto simp: entry_update_def entry_fin_def fdiv_def)

lemma row_update_fin:
  "0 < epsilon p \<Longrightarrow> row_update p WWT nr hr = map Some (row_fin p WWT nr hr)"
  by (simp add: row_update_def row_fin_def entry_update_fin split_def)

lemma mu_update_fin:
  "0 < epsilon p \<Longrightarrow> mu_update p WWT numer h = map (map Some) (step_fin p WWT numer h)"
  by (simp add: mu_update_def step_fin_def row_update_fin split_def)

lemma mu_step_fin:
  "0 < epsilon p \<Longrightarrow> mu_step p WWT numer h = Some (step_fin p WWT numer h)"
  by (simp add: mu_step_rows all_finite_Some_iff mu_update_fin)

lemma has_shape_iff: "has_shape n c M \<longleftrightarrow> length M = n \<and> (\<forall>r\<in>set M. length r = c)"
  by (simp add: has_shape_def list_all_iff)

lemma nonneg_iff: "nonneg M \<longleftrightarrow> (\<forall>r\<in>set M. \<forall>v\<in>set r. 0 \<le> v)"
  by (simp add: nonneg_def list_all_iff)

lemma dot_nonneg:
  assumes "\<forall>v\<in>set u. 0 \<le> v" and "\<forall>v\<in>set w. 0 \<le> v"
  shows "0 \<le> dot u w"
  unfolding dot_def
proof (rule sum_list_nonneg)
  fix x assume "x \<in> set (map2 (*) u w)"
  then obtain a b where "(a, b) \<in> set (zip u w)" and x: "x = a * b" by auto
  then have "a \<in> set u" "b \<in> set w" by (auto dest: set_zip_leftD set_zip_rightD)
  with assms x show "0 \<le> x" by simp
qed

lemma transpose_rect:
  assumes "has_shape n c M" and "0 < n"
  shows "transpose M = map (\<lambda>j. map (\<lambda>r. r ! j) M) [0..<c]"
proof -
  have len: "\<And>i. i < length M \<Longrightarrow> length (M ! i) = c"
    using assms(1) by (simp add: has_shape_iff)
  have "transpose M = map (\<lambda>i. map (\<lambda>j. M ! j ! i) [0..<length M]) [0..<c]"
    by (rule transpose_rectangle) (use assms len in \<open>auto simp: has_shape_iff\<close>)
  moreover have "\<And>i. map (\<lambda>j. M ! j ! i) [0..<length M] = map (\<lambda>r. r ! i) M"
    by (rule nth_equalityI) auto
  ultimately show ?thesis by simp
qed

lemma length_transpose_square:
  assumes "has_shape k k M"
  shows "length (transpose M) = k"
proof (cases "k = 0")
  case True with assms show ?thesis by (simp add: has_shape_iff)
next
  case False
  with transpose_rect[OF assms] show ?thesis by simp
qed

lemma length_denom_row:
  "has_shape k k WWT \<Longrightarrow> length hr = k \<Longrightarrow> length (denom_row p WWT hr) = k"
  by (simp add: denom_row_def Let_def length_transpose_square)

lemma length_row_fin:
  "has_shape k k WWT \<Longrightarrow> length hr = k \<Longrightarrow> length nr = k \<Longrightarrow> length (row_fin p WWT nr hr) = k"
  by (simp add: row_fin_def length_denom_row)

lemma has_shape_step_fin:
  assumes "has_shape k k WWT" "has_shape c k numer" "has_shape c k h"
  shows "has_shape c k (step_fin p WWT numer h)"
proof -
  have "length r = k" if "r \<in> set (step_fin p WWT numer h)" for r
  proof -
    from that obtain nr hr where "(nr, hr) \<in> set (zip numer h)" and r: "r = row_fin p WWT nr hr"
      by (auto simp: step_fin_def)
    then have "nr \<in> set numer" "hr \<in> set h" by (auto dest: set_zip_leftD set_zip_rightD)
    with assms have "length nr = k" "length hr = k" by (auto simp: has_shape_iff)
    with r show ?thesis by (simp add: length_row_fin[OF assms(1)])
  qed
  moreover have "length (step_fin p WWT numer h) = c"
    using assms by (simp add: step_fin_def has_shape_iff)
  ultimately show ?thesis by (simp add: has_shape_iff)
qed

lemma entry_fin_nonneg:
  "0 < epsilon p \<Longrightarrow> 0 \<le> hv \<Longrightarrow> 0 \<le> nu \<Longrightarrow> 0 \<le> entry_fin p hv nu de"
  by (auto simp: entry_fin_def intro!: mult_nonneg_nonneg divide_nonneg_nonneg)

lemma row_fin_nonneg:
  assumes "0 < epsilon p" "\<forall>v\<in>set hr. 0 \<le> v" "\<forall>v\<in>set nr. 0 \<le> v"
  shows "\<forall>v\<in>set (row_fin p WWT nr hr). 0 \<le> v"
proof
  fix v assume "v \<in> set (row_fin p WWT nr hr)"
  then obtain hv nu de where "(hv, nu, de) \<in> set (zip hr (zip nr (denom_row p WWT hr)))"
    and v: "v = entry_fin p hv nu de"
    by (auto simp: row_fin_def)
  then have "hv \<in> set hr" "nu \<in> set nr"
    by (auto dest: set_zip_leftD set_zip_rightD)
  with assms v show "0 \<le> v" by (simp add: entry_fin_nonneg)
qed

lemma nonneg_step_fin:
  assumes "0 < epsilon p" "nonneg numer" "nonneg h"
  shows "nonneg (step_fin p WWT numer h)"
  unfolding nonneg_iff step_fin_def
proof (intro ballI)
  fix r v assume "r \<in> set (map2 (row_fin p WWT) numer h)" "v \<in> set r"
  then obtain nr hr where "(nr, hr) \<in> set (zip numer h)" and r: "r = row_fin p WWT nr hr"
    by auto
  then have "nr \<in> set numer" "hr \<in> set h" by (auto dest: set_zip_leftD set_zip_rightD)
  then have "\<forall>v\<in>set hr. 0 \<le> v" "\<forall>v\<in>set nr. 0 \<le> v"
    using assms by (auto simp: nonneg_iff)
  from row_fin_nonneg[OF assms(1) this] r \<open>v \<in> set r\<close> show "0 \<le> v" by simp
qed

lemma has_shape_matmul_T: "length A = n \<Longrightarrow> length B = k \<Longrightarrow> has_shape n k (matmul_T A B)"
  by (auto simp: has_shape_iff matmul_T_def)

lemma nonneg_matmul_T: "nonneg A \<Longrightarrow> nonneg B \<Longrightarrow> nonneg (matmul_T A B)"
  by (auto simp: nonneg_iff matmul_T_def intro!: dot_nonneg)

lemma has_shape_mu_numer: "length x = c \<Longrightarrow> length W = k \<Longrightarrow> has_shape c k (mu_numer p W x)"
  using has_shape_matmul_T[of x c W k]
  by (auto simp: mu_numer_def Let_def clamp_min0_def has_shape_iff)

lemma nonneg_mu_numer: "nonneg x \<Longrightarrow> nonneg W \<Longrightarrow> nonneg (mu_numer p W x)"
  using nonneg_matmul_T[of x W]
  by (auto simp: mu_numer_def Let_def clamp_min0_def nonneg_iff)

lemma mu_loop_inv:
  assumes "0 < epsilon p" "has_shape k k WWT" "has_shape c k numer" "nonneg numer"
  shows "has_shape c k h \<Longrightarrow> nonneg h \<Longrightarrow>
         \<exists>h'. mu_loop p WWT numer m h = Some h' \<and> has_shape c k h' \<and> nonneg h'"
proof (induction m arbitrary: h)
  case 0 then show ?case by simp
next
  case (Suc m)
  let ?h = "step_fin p WWT numer h"
  have s: "has_shape c k ?h" by (rule has_shape_step_fin[OF assms(2,3) Suc.prems(1)])
  have n: "nonneg ?h" by (rule nonneg_step_fin[OF assms(1,4) Suc.prems(2)])
  from Suc.IH[OF s n] s n show ?case by (simp add: mu_step_fin[OF assms(1)])
qed

lemma has_shape_slice:
  "has_shape n c M \<Longrightarrow> has_shape (min m (n - i)) c (take m (drop i M))"
  by (auto simp: has_shape_iff dest!: in_set_takeD in_set_dropD)

lemma nonneg_slice: "nonneg M \<Longrightarrow> nonneg (take m (drop i M))"
  by (auto simp: nonneg_iff dest!: in_set_takeD in_set_dropD)

lemma has_shape_assign:
  assumes "has_shape n c M" "has_shape (min m (n - i)) c N" "i < n"
  shows "has_shape n c (take i M @ N @ drop (i + m) M)"
  using assms by (auto simp: has_shape_iff dest!: in_set_takeD in_set_dropD)

lemma nonneg_assign: "nonneg M \<Longrightarrow> nonneg N \<Longrightarrow> nonneg (take i M @ N @ drop j M)"
  by (auto simp: nonneg_iff dest!: in_set_takeD in_set_dropD)

lemma chunk_loop_inv:
  assumes eps: "0 < epsilon p" and cs: "0 < chunk_size p"
    and X: "has_shape n f X" "nonneg X" and W: "has_shape k f W" "nonneg W"
    and WWT: "has_shape k k WWT"
  shows "has_shape n k H \<Longrightarrow> nonneg H \<Longrightarrow>
         \<exists>H'. chunk_loop p X W WWT idx H = Some (Inr H') \<and> has_shape n k H' \<and> nonneg H'"
proof (induction "n - idx" arbitrary: idx H rule: less_induct)
  case less
  have n: "length X = n" using X by (simp add: has_shape_iff)
  show ?case
  proof (cases "idx < n")
    case False
    with less.prems n show ?thesis by (subst chunk_loop.simps) simp
  next
    case True
    let ?x = "take (chunk_size p) (drop idx X)"
    let ?h = "take (chunk_size p) (drop idx H)"
    let ?c = "min (chunk_size p) (n - idx)"
    have "has_shape ?c k (mu_numer p W ?x)"
      using has_shape_slice[OF X(1), of "chunk_size p" idx] W(1)
      by (intro has_shape_mu_numer) (simp_all add: has_shape_iff)
    moreover have "nonneg (mu_numer p W ?x)"
      by (intro nonneg_mu_numer nonneg_slice X W)
    moreover have "has_shape ?c k ?h" by (rule has_shape_slice[OF less.prems(1)])
    moreover have "nonneg ?h" by (rule nonneg_slice[OF less.prems(2)])
    ultimately obtain h' where h': "mu_chunk p W WWT ?x ?h = Some h'"
      "has_shape ?c k h'" "nonneg h'"
      using mu_loop_inv[OF eps WWT, of ?c "mu_numer p W ?x" ?h "chunk_max_iter p"]
      by (auto simp: mu_chunk_def)
    let ?H = "take idx H @ h' @ drop (idx + chunk_size p) H"
    have "has_shape n k ?H" by (rule has_shape_assign[OF less.prems(1) h'(2) True])
    moreover have "nonneg ?H" by (rule nonneg_assign[OF less.prems(2) h'(3)])
    moreover have "n - (idx + chunk_size p) < n - idx" using True cs by simp
    ultimately have "\<exists>H'. chunk_loop p X W WWT (idx + chunk_size p) ?H = Some (Inr H')
        \<and> has_shape n k H' \<and> nonneg H'"
      by (intro less.hyps)
    with True n h'(1) show ?thesis by (subst chunk_loop.simps) simp
  qed
qed

lemma has_shape_clamp: "has_shape n k M \<Longrightarrow> has_shape n k (clamp_min0 M)"
  by (auto simp: has_shape_iff clamp_min0_def)

lemma nonneg_clamp: "nonneg (clamp_min0 M)"
  by (auto simp: nonneg_iff clamp_min0_def)

lemma mu_update_nth:
  assumes "i < length numer" "i < length h"
  shows "mu_update p WWT numer h ! i = row_update p WWT (numer ! i) (h ! i)"
  using assms by (simp add: mu_update_def)

lemma row_update_nth:
  assumes "j < length hr" "j < length nr" "j < length (denom_row p WWT hr)"
  shows "row_update p WWT nr hr ! j = entry_update p (hr ! j) (nr ! j) (denom_row p WWT hr ! j)"
  using assms by (simp add: row_update_def)

lemma length_mu_update: "length (mu_update p WWT numer h) = min (length numer) (length h)"
  by (simp add: mu_update_def)

lemma length_row_update:
  "length (row_update p WWT nr hr) = min (length hr) (min (length nr) (length (denom_row p WWT hr)))"
  by (simp add: row_update_def)

lemma entry_update_zero: "entry_update p 0 nu de = Some v \<Longrightarrow> v = 0"
  by (auto simp: entry_update_def fdiv_def split: if_splits)

lemma entry_update_floor: "de < epsilon p \<Longrightarrow> entry_update p hv nu de = Some 0"
  by (simp add: entry_update_def)

lemma mu_step_Some_rows:
  assumes "mu_step p WWT numer h = Some h'"
  shows "length h' = min (length numer) (length h)"
    and "i < length h' \<Longrightarrow> row_update p WWT (numer ! i) (h ! i) = map Some (h' ! i)"
proof -
  from assms have eq: "mu_update p WWT numer h = map (map Some) h'"
    by (simp add: mu_step_rows all_finite_Some_iff)
  from arg_cong[OF eq, of length] show len: "length h' = min (length numer) (length h)"
    by (simp add: length_mu_update)
  assume i: "i < length h'"
  with len have "mu_update p WWT numer h ! i = row_update p WWT (numer ! i) (h ! i)"
    by (intro mu_update_nth) simp_all
  with eq i show "row_update p WWT (numer ! i) (h ! i) = map Some (h' ! i)" by simp
qed

lemma mu_step_Some_entry:
  assumes "mu_step p WWT numer h = Some h'" "i < length h'" "j < length (h' ! i)"
  shows "j < length (h ! i)"
    and "entry_update p (h ! i ! j) (numer ! i ! j) (denom_row p WWT (h ! i) ! j) = Some (h' ! i ! j)"
proof -
  have r: "row_update p WWT (numer ! i) (h ! i) = map Some (h' ! i)"
    by (rule mu_step_Some_rows(2)[OF assms(1,2)])
  from arg_cong[OF r, of length] assms(3)
  have j: "j < length (h ! i)" "j < length (numer ! i)" "j < length (denom_row p WWT (h ! i))"
    by (simp_all add: length_row_update)
  show "j < length (h ! i)" by fact
  from row_update_nth[OF j] r assms(3)
  show "entry_update p (h ! i ! j) (numer ! i ! j) (denom_row p WWT (h ! i) ! j) = Some (h' ! i ! j)"
    by simp
qed

lemma mu_step_zero:
  assumes "mu_step p WWT numer h = Some h'" "i < length h'" "j < length (h' ! i)" "h ! i ! j = 0"
  shows "h' ! i ! j = 0"
  using mu_step_Some_entry(2)[OF assms(1-3)] assms(4) by (auto dest: entry_update_zero)




section \<open>Floored entries and zero entries\<close>

lemma mu_denom_nth: "i < length h \<Longrightarrow> mu_denom p WWT h ! i = denom_row p WWT (h ! i)"
  by (simp add: mu_denom_rows)

lemma has_shape_nth: "has_shape n c M \<Longrightarrow> i < n \<Longrightarrow> length (M ! i) = c"
  by (simp add: has_shape_iff)

lemma has_shape_length: "has_shape n c M \<Longrightarrow> length M = n"
  by (simp add: has_shape_iff)

lemma mu_rates_nth:
  assumes "i < length numer" "i < length denom" "j < length (numer ! i)" "j < length (denom ! i)"
  shows "mu_rates p numer denom ! i ! j =
          (if denom ! i ! j < epsilon p then Some 0 else fdiv (numer ! i ! j) (denom ! i ! j))"
  using assms by (simp add: mu_rates_def)

lemma mu_floor_entry:
  assumes h: "has_shape c k h" and numer: "has_shape c k numer" and WWT: "has_shape k k WWT"
    and i: "i < c" and j: "j < k"
    and floor: "mu_denom p WWT h ! i ! j < epsilon p"
  shows "mu_rates p numer (mu_denom p WWT h) ! i ! j = Some 0"
    and "mu_h_new h (mu_rates p numer (mu_denom p WWT h)) ! i ! j = Some 0"
proof -
  have li: "i < length h" "i < length numer" using h numer i by (simp_all add: has_shape_iff)
  have lj: "j < length (h ! i)" "j < length (numer ! i)"
    using has_shape_nth[OF h i] has_shape_nth[OF numer i] j by simp_all
  have d: "mu_denom p WWT h ! i = denom_row p WWT (h ! i)" by (rule mu_denom_nth[OF li(1)])
  have ld: "j < length (denom_row p WWT (h ! i))"
    using length_denom_row[OF WWT has_shape_nth[OF h i]] j by simp
  have "i < length (mu_denom p WWT h)" using li by (simp add: mu_denom_rows)
  with li lj ld d floor show "mu_rates p numer (mu_denom p WWT h) ! i ! j = Some 0"
    by (simp add: mu_rates_nth)
  from floor d have "denom_row p WWT (h ! i) ! j < epsilon p" by simp
  then show "mu_h_new h (mu_rates p numer (mu_denom p WWT h)) ! i ! j = Some 0"
    by (simp add: mu_h_new_rows mu_update_nth[OF li(2,1)] row_update_nth[OF lj ld] entry_update_floor)
qed

lemma mu_step_Some_shape:
  assumes "mu_step p WWT numer h = Some h'"
    and "has_shape k k WWT" "has_shape c k numer" "has_shape c k h"
  shows "has_shape c k h'"
proof -
  have len: "length h' = c"
    using mu_step_Some_rows(1)[OF assms(1)] assms(3,4) by (simp add: has_shape_iff)
  have "length (h' ! i) = k" if "i < length h'" for i
  proof -
    from that len have i: "i < c" by simp
    have "length (row_update p WWT (numer ! i) (h ! i)) = k"
      using length_denom_row[OF assms(2) has_shape_nth[OF assms(4) i]]
        has_shape_nth[OF assms(4) i] has_shape_nth[OF assms(3) i]
      by (simp add: length_row_update)
    with mu_step_Some_rows(2)[OF assms(1) that] show ?thesis by simp
  qed
  with len show ?thesis by (auto simp: has_shape_iff in_set_conv_nth)
qed





lemma has_shape_init_H:
  "(case H_init of None \<Rightarrow> has_shape n k rnd | Some H0 \<Rightarrow> has_shape n k H0) \<Longrightarrow>
   has_shape n k (init_H H_init rnd)"
  by (auto simp: init_H_def has_shape_clamp split: option.splits)

lemma nonneg_init_H:
  "(case H_init of None \<Rightarrow> nonneg rnd | Some H0 \<Rightarrow> True) \<Longrightarrow> nonneg (init_H H_init rnd)"
  by (auto simp: init_H_def nonneg_clamp split: option.splits)

lemma fit_H_online_returns:
  assumes "0 < epsilon p" and "0 < chunk_size p"
    and "has_shape n f X" and "nonneg X" and "has_shape k f W" and "nonneg W"
    and "has_shape n k (init_H H_init rnd)" and "nonneg (init_H H_init rnd)"
  shows "\<exists>H. fit_H_online X W H_init rnd p = Some (Inr H) \<and> has_shape n k H \<and> nonneg H"
proof -
  have "has_shape k k (matmul_T W W)"
    using assms(5) by (intro has_shape_matmul_T) (simp_all add: has_shape_iff)
  then show ?thesis
    using chunk_loop_inv[OF assms(1-6), of "matmul_T W W" "init_H H_init rnd" 0] assms(7,8)
    by (simp add: fit_H_online_def)
qed

section \<open>Chunks, one at a time and all together\<close>

lemma mu_loop_fin:
  "0 < epsilon p \<Longrightarrow> mu_loop p WWT numer m h = Some (loop_fin p WWT numer m h)"
  by (induction m arbitrary: h) (simp_all add: mu_step_fin)

lemma mu_chunk_fin: "0 < epsilon p \<Longrightarrow> mu_chunk p W WWT x h = Some (chunk_fin p W WWT x h)"
  by (simp add: mu_chunk_def chunk_fin_def mu_loop_fin)

lemma length_step_fin: "length (step_fin p WWT numer h) = min (length numer) (length h)"
  by (simp add: step_fin_def)

lemma length_loop_fin:
  "length numer = length h \<Longrightarrow> length (loop_fin p WWT numer m h) = length h"
  by (induction m arbitrary: h) (simp_all add: length_step_fin)

lemma length_mu_numer: "length (mu_numer p W x) = length x"
  by (simp add: mu_numer_def Let_def matmul_T_def clamp_min0_def)

lemma length_chunk_fin: "length x = length h \<Longrightarrow> length (chunk_fin p W WWT x h) = length h"
  by (simp add: chunk_fin_def length_loop_fin length_mu_numer)

lemma length_chunks_fin:
  "length X = length H \<Longrightarrow> length (chunks_fin p W WWT X H) = length H"
proof (induction p W WWT X H rule: chunks_fin.induct)
  case (1 p W WWT X H)
  show ?case
  proof (cases "X = [] \<or> chunk_size p = 0")
    case True then show ?thesis by (subst chunks_fin.simps) simp
  next
    case False
    have "length (chunks_fin p W WWT (drop (chunk_size p) X) (drop (chunk_size p) H))
            = length (drop (chunk_size p) H)"
      using False 1 by simp
    moreover have "length (chunk_fin p W WWT (take (chunk_size p) X) (take (chunk_size p) H))
            = length (take (chunk_size p) H)"
      using 1(2) by (intro length_chunk_fin) simp
    ultimately show ?thesis using False by (subst chunks_fin.simps) simp
  qed
qed

lemma chunk_loop_fin:
  assumes eps: "0 < epsilon p" and cs: "0 < chunk_size p"
  shows "length H = length X \<Longrightarrow>
         chunk_loop p X W WWT idx H =
           Some (Inr (take idx H @ chunks_fin p W WWT (drop idx X) (drop idx H)))"
proof (induction "length X - idx" arbitrary: idx H rule: less_induct)
  case less
  let ?cs = "chunk_size p"
  show ?case
  proof (cases "idx < length X")
    case False
    with less.prems show ?thesis
      by (subst chunk_loop.simps, subst chunks_fin.simps) simp
  next
    case True
    let ?x = "take ?cs (drop idx X)" and ?h = "take ?cs (drop idx H)"
    let ?h' = "chunk_fin p W WWT ?x ?h"
    define Hn where "Hn = take idx H @ ?h' @ drop (idx + ?cs) H"
    have lh: "length ?h' = min ?cs (length X - idx)"
      using less.prems by (subst length_chunk_fin) simp_all
    have lH: "length Hn = length X" using lh less.prems True by (auto simp: Hn_def)
    have "length X - (idx + ?cs) < length X - idx" using True cs by simp
    from less.hyps[OF this lH]
    have rec: "chunk_loop p X W WWT (idx + ?cs) Hn =
        Some (Inr (take (idx + ?cs) Hn @ chunks_fin p W WWT (drop (idx + ?cs) X) (drop (idx + ?cs) Hn)))" .
    have t: "take (idx + ?cs) Hn = take idx H @ ?h'"
      using lh less.prems True by (auto simp: min_def Hn_def)
    have d: "drop (idx + ?cs) Hn = drop (idx + ?cs) H"
      using lh less.prems True by (auto simp: min_def Hn_def)
    have ne: "drop idx X \<noteq> []" using True by simp
    have unf: "chunks_fin p W WWT (drop idx X) (drop idx H) =
        ?h' @ chunks_fin p W WWT (drop (idx + ?cs) X) (drop (idx + ?cs) H)"
      using ne cs by (subst chunks_fin.simps) (simp add: add.commute)
    have "chunk_loop p X W WWT idx H = chunk_loop p X W WWT (idx + ?cs) Hn"
      using True by (subst chunk_loop.simps) (simp add: mu_chunk_fin[OF eps] Hn_def)
    also note rec
    finally show ?thesis unfolding t d unf by simp
  qed
qed

lemma chunks_fin_slice:
  assumes cs: "0 < chunk_size p"
  shows "length X = length H \<Longrightarrow> q * chunk_size p < length X \<Longrightarrow>
     take (chunk_size p) (drop (q * chunk_size p) (chunks_fin p W WWT X H)) =
       chunk_fin p W WWT (take (chunk_size p) (drop (q * chunk_size p) X))
                         (take (chunk_size p) (drop (q * chunk_size p) H))"
proof (induction q arbitrary: X H)
  case 0
  let ?cs = "chunk_size p"
  from 0 have ne: "X \<noteq> []" by auto
  have l: "length (chunk_fin p W WWT (take ?cs X) (take ?cs H)) = min ?cs (length H)"
    using 0(1) by (subst length_chunk_fin) simp_all
  show ?case
  proof (cases "?cs \<le> length H")
    case True
    with l show ?thesis using ne cs by (subst chunks_fin.simps) simp
  next
    case False
    then have "drop ?cs X = []" using 0(1) by simp
    then have "chunks_fin p W WWT (drop ?cs X) (drop ?cs H) = drop ?cs H"
      by (subst chunks_fin.simps) simp
    with False l show ?thesis using ne cs by (subst chunks_fin.simps) simp
  qed
next
  case (Suc q)
  let ?cs = "chunk_size p"
  from Suc.prems have big: "?cs < length X" "q * ?cs < length X - ?cs"
    by (auto simp: less_diff_conv)
  then have ne: "X \<noteq> []" by auto
  have l: "length (chunk_fin p W WWT (take ?cs X) (take ?cs H)) = ?cs"
    using Suc.prems(1) big by (subst length_chunk_fin) simp_all
  have "drop (Suc q * ?cs) (chunks_fin p W WWT X H) =
        drop (q * ?cs) (chunks_fin p W WWT (drop ?cs X) (drop ?cs H))"
    using ne cs l by (subst chunks_fin.simps) (simp add: add.commute)
  moreover have "take ?cs (drop (q * ?cs) (chunks_fin p W WWT (drop ?cs X) (drop ?cs H))) =
       chunk_fin p W WWT (take ?cs (drop (q * ?cs) (drop ?cs X)))
                         (take ?cs (drop (q * ?cs) (drop ?cs H)))"
    using Suc.prems(1) big by (intro Suc.IH) simp_all
  ultimately show ?case by (simp add: add.commute)
qed

lemma sum_sq_nonneg: "0 \<le> sum_sq M"
  unfolding sum_sq_def by (intro sum_list_nonneg) (auto intro!: sum_list_nonneg)

lemma fro_norm_nonneg: "0 \<le> fro_norm M"
  by (simp add: fro_norm_def sum_sq_nonneg)

lemma not_converged:
  assumes "0 < epsilon p" "h_tol p \<le> 0"
  shows "\<not> converged p h g"
proof -
  have "0 < fro_norm h + epsilon p" using fro_norm_nonneg[of h] assms(1) by linarith
  then have "0 \<le> fro_norm (mat_sub g h) / (fro_norm h + epsilon p)"
    using fro_norm_nonneg[of "mat_sub g h"] by simp
  with assms(2) show ?thesis by (simp add: converged_def Let_def)
qed

lemma loop_fin_funpow:
  assumes "0 < epsilon p" "h_tol p \<le> 0"
  shows "loop_fin p WWT numer m h = ((step_fin p WWT numer) ^^ m) h"
  by (induction m arbitrary: h) (simp_all add: not_converged[OF assms] funpow_swap1)

lemma mu_numer_rows: "mu_numer p W x = map (numer_row p W) x"
  by (simp add: mu_numer_def Let_def matmul_T_def clamp_min0_def numer_row_def)

lemma map2_map2_same:
  "map2 F xs (map2 G xs ys) = map2 (\<lambda>x y. F x (G x y)) xs ys"
proof (induction xs arbitrary: ys)
  case Nil then show ?case by simp
next
  case (Cons x xs) then show ?case by (cases ys) simp_all
qed

lemma step_fin_funpow_rows:
  "length x = length h \<Longrightarrow>
   ((step_fin p WWT (map N x)) ^^ m) h = map2 (\<lambda>xr hr. ((row_fin p WWT (N xr)) ^^ m) hr) x h"
proof (induction m arbitrary: h)
  case 0
  then show ?case by (simp add: map_snd_zip[symmetric] split_def)
next
  case (Suc m)
  have s: "step_fin p WWT (map N x) h = map2 (\<lambda>xr hr. row_fin p WWT (N xr) hr) x h"
    by (simp add: step_fin_def zip_map1 split_def)
  have "length x = length (step_fin p WWT (map N x) h)"
    using Suc.prems by (simp add: length_step_fin)
  from Suc.IH[OF this] show ?case
    by (simp add: funpow_swap1 s map2_map2_same)
qed

lemma chunk_fin_rows:
  assumes "0 < epsilon p" "h_tol p \<le> 0" "length x = length h"
  shows "chunk_fin p W WWT x h = map2 (row_fit p W WWT) x h"
  using step_fin_funpow_rows[OF assms(3), where p = p and WWT = WWT and N = "numer_row p W"
      and m = "chunk_max_iter p"]
  by (simp add: chunk_fin_def loop_fin_funpow[OF assms(1,2)] mu_numer_rows row_fit_def)

lemma map2_take_drop:
  assumes "length X = length H"
  shows "map2 f (take c X) (take c H) @ map2 f (drop c X) (drop c H) = map2 f X H"
proof -
  have "zip X H = zip (take c X @ drop c X) (take c H @ drop c H)" by simp
  also have "\<dots> = zip (take c X) (take c H) @ zip (drop c X) (drop c H)"
    using assms by (intro zip_append) simp
  finally show ?thesis by simp
qed

lemma chunks_fin_rows:
  assumes "0 < epsilon p" "h_tol p \<le> 0" "0 < chunk_size p"
  shows "length X = length H \<Longrightarrow> chunks_fin p W WWT X H = map2 (row_fit p W WWT) X H"
proof (induction "length X" arbitrary: X H rule: less_induct)
  case less
  let ?cs = "chunk_size p"
  show ?case
  proof (cases "X = []")
    case True
    with less.prems show ?thesis by (subst chunks_fin.simps) simp
  next
    case False
    have "length (drop ?cs X) < length X" using False assms(3) by simp
    moreover have "length (drop ?cs X) = length (drop ?cs H)" using less.prems by simp
    ultimately have rec: "chunks_fin p W WWT (drop ?cs X) (drop ?cs H) =
        map2 (row_fit p W WWT) (drop ?cs X) (drop ?cs H)"
      by (rule less.hyps)
    have c: "chunk_fin p W WWT (take ?cs X) (take ?cs H) =
        map2 (row_fit p W WWT) (take ?cs X) (take ?cs H)"
      using less.prems by (intro chunk_fin_rows assms) simp
    have "chunks_fin p W WWT X H = chunk_fin p W WWT (take ?cs X) (take ?cs H) @
        chunks_fin p W WWT (drop ?cs X) (drop ?cs H)"
      using False assms(3) by (subst chunks_fin.simps) simp
    then show ?thesis
      unfolding rec c by (simp only: map2_take_drop[OF less.prems])
  qed
qed

lemma row_fin_chunk_size: "row_fin (p\<lparr>chunk_size := c\<rparr>) = row_fin p"
  by (intro ext) (simp add: row_fin_def entry_fin_def denom_row_def Let_def)

lemma row_fit_chunk_size: "row_fit (p\<lparr>chunk_size := c\<rparr>) = row_fit p"
  by (intro ext) (simp add: row_fit_def row_fin_chunk_size numer_row_def)

section \<open>Deciding the stopping test on concrete matrices\<close>

lemma converged_upper:
  assumes "0 < epsilon p" "sum_sq (mat_sub g h) \<le> u\<^sup>2" "0 \<le> u" "l\<^sup>2 \<le> sum_sq h" "0 \<le> l"
    and "u < h_tol p * (l + epsilon p)"
  shows "converged p h g"
proof -
  have a: "fro_norm (mat_sub g h) \<le> u"
    unfolding fro_norm_def by (rule real_le_lsqrt[OF assms(3,2)])
  have b: "l \<le> fro_norm h"
    unfolding fro_norm_def by (rule real_le_rsqrt[OF assms(4)])
  have d: "0 < fro_norm h + epsilon p" using b assms(1,5) by linarith
  have "0 < l + epsilon p" using assms(1,5) by linarith
  have t: "0 < h_tol p"
  proof (rule ccontr)
    assume "\<not> 0 < h_tol p"
    with \<open>0 < l + epsilon p\<close> have "h_tol p * (l + epsilon p) \<le> 0"
      by (simp add: mult_nonpos_nonneg)
    with assms(3,6) show False by linarith
  qed
  have "h_tol p * (l + epsilon p) \<le> h_tol p * (fro_norm h + epsilon p)"
    using b t by (intro mult_left_mono) simp_all
  with a assms(6) have "fro_norm (mat_sub g h) < h_tol p * (fro_norm h + epsilon p)" by linarith
  with d show ?thesis by (simp add: converged_def Let_def pos_divide_less_eq)
qed

lemma not_converged_lower:
  assumes "0 < epsilon p" "l\<^sup>2 \<le> sum_sq (mat_sub g h)" "sum_sq h \<le> u\<^sup>2" "0 \<le> u"
    and "0 \<le> h_tol p" and "h_tol p * (u + epsilon p) \<le> l"
  shows "\<not> converged p h g"
proof -
  have a: "l \<le> fro_norm (mat_sub g h)"
    unfolding fro_norm_def by (rule real_le_rsqrt[OF assms(2)])
  have b: "fro_norm h \<le> u"
    unfolding fro_norm_def by (rule real_le_lsqrt[OF assms(4,3)])
  have d: "0 < fro_norm h + epsilon p" using fro_norm_nonneg[of h] assms(1) by linarith
  have "h_tol p * (fro_norm h + epsilon p) \<le> h_tol p * (u + epsilon p)"
    using b assms(5) by (intro mult_left_mono) simp_all
  with a assms(6) have "h_tol p * (fro_norm h + epsilon p) \<le> fro_norm (mat_sub g h)" by linarith
  with d show ?thesis by (simp add: converged_def Let_def pos_divide_less_eq)
qed

lemma mu_loop_stop:
  "mu_step p WWT numer h = Some g \<Longrightarrow> converged p h g \<Longrightarrow> mu_loop p WWT numer (Suc m) h = Some g"
  by simp

lemma mu_loop_go:
  "mu_step p WWT numer h = Some g \<Longrightarrow> \<not> converged p h g \<Longrightarrow>
   mu_loop p WWT numer (Suc m) h = mu_loop p WWT numer m g"
  by simp

lemma ex_fields:
  "epsilon (default_params\<lparr>chunk_size := c\<rparr>) = 1/10^16"
  "h_tol (default_params\<lparr>chunk_size := c\<rparr>) = 5/100"
  "l1_reg_H (default_params\<lparr>chunk_size := c\<rparr>) = 0"
  "l2_reg_H (default_params\<lparr>chunk_size := c\<rparr>) = 0"
  "chunk_max_iter (default_params\<lparr>chunk_size := c\<rparr>) = Suc (Suc (Suc 197))"
  "chunk_size (default_params\<lparr>chunk_size := c\<rparr>) = c"
  by (simp_all add: default_params_def)

lemma ex_whole_chunk:
  "mu_chunk (default_params\<lparr>chunk_size := c\<rparr>) [[1, 1], [0, 1]] [[2, 1], [1, 1]]
      [[1, 0], [0, 30]] [[1, 1], [0, 30]] = Some [[1/3, 0], [0, 30]]"
proof -
  let ?p = "default_params\<lparr>chunk_size := c\<rparr>"
  have n: "mu_numer ?p [[1, 1], [0, 1]] [[1, 0], [0, 30]] = [[1, 0], [30, 30]]"
    by (simp add: mu_numer_def matmul_T_def dot_def ex_fields)
  have s: "mu_step ?p [[2, 1], [1, 1]] [[1, 0], [30, 30]] [[1, 1], [0, 30]] = Some [[1/3, 0], [0, 30]]"
    by (simp add: mu_step_def mu_rates_def mu_h_new_def all_finite_def fdiv_def mu_denom_def
        matmul_def dot_def ex_fields)
  have c: "converged ?p [[1, 1], [0, 30]] [[1/3, 0], [0, 30]]"
    by (rule converged_upper[where u = "13/10" and l = 30])
       (simp_all add: ex_fields sum_sq_def mat_sub_def power2_eq_square)
  show ?thesis
    unfolding mu_chunk_def n ex_fields by (rule mu_loop_stop[OF s c])
qed

lemma ex_first_row:
  "mu_chunk (default_params\<lparr>chunk_size := c\<rparr>) [[1, 1], [0, 1]] [[2, 1], [1, 1]]
      [[1, 0]] [[1, 1]] = Some [[1/2, 0]]"
proof -
  let ?p = "default_params\<lparr>chunk_size := c\<rparr>"
  let ?WWT = "[[2, 1], [1, 1 :: real]]"
  let ?n = "[[1, 0 :: real]]"
  have n: "mu_numer ?p [[1, 1], [0, 1]] [[1, 0]] = ?n"
    by (simp add: mu_numer_def matmul_T_def dot_def ex_fields)
  have s1: "mu_step ?p ?WWT ?n [[1, 1]] = Some [[1/3, 0]]"
    by (simp add: mu_step_def mu_rates_def mu_h_new_def all_finite_def fdiv_def mu_denom_def
        matmul_def dot_def ex_fields)
  have c1: "\<not> converged ?p [[1, 1]] [[1/3, 0]]"
    by (rule not_converged_lower[where u = 2 and l = 1])
       (simp_all add: ex_fields sum_sq_def mat_sub_def power2_eq_square)
  have s2: "mu_step ?p ?WWT ?n [[1/3, 0]] = Some [[1/2, 0]]"
    by (simp add: mu_step_def mu_rates_def mu_h_new_def all_finite_def fdiv_def mu_denom_def
        matmul_def dot_def ex_fields)
  have c2: "\<not> converged ?p [[1/3, 0]] [[1/2, 0]]"
    by (rule not_converged_lower[where u = "1/3" and l = "1/6"])
       (simp_all add: ex_fields sum_sq_def mat_sub_def power2_eq_square)
  have s3: "mu_step ?p ?WWT ?n [[1/2, 0]] = Some [[1/2, 0]]"
    by (simp add: mu_step_def mu_rates_def mu_h_new_def all_finite_def fdiv_def mu_denom_def
        matmul_def dot_def ex_fields)
  have c3: "converged ?p [[1/2, 0]] [[1/2, 0]]"
    by (rule converged_upper[where u = 0 and l = 0])
       (simp_all add: ex_fields sum_sq_def mat_sub_def power2_eq_square)
  show ?thesis
    unfolding mu_chunk_def n ex_fields
    by (simp only: mu_loop_go[OF s1 c1] mu_loop_go[OF s2 c2] mu_loop_stop[OF s3 c3])
qed

lemma ex_second_row:
  "mu_chunk (default_params\<lparr>chunk_size := c\<rparr>) [[1, 1], [0, 1]] [[2, 1], [1, 1]]
      [[0, 30]] [[0, 30]] = Some [[0, 30]]"
proof -
  let ?p = "default_params\<lparr>chunk_size := c\<rparr>"
  have n: "mu_numer ?p [[1, 1], [0, 1]] [[0, 30]] = [[30, 30]]"
    by (simp add: mu_numer_def matmul_T_def dot_def ex_fields)
  have s: "mu_step ?p [[2, 1], [1, 1]] [[30, 30]] [[0, 30]] = Some [[0, 30]]"
    by (simp add: mu_step_def mu_rates_def mu_h_new_def all_finite_def fdiv_def mu_denom_def
        matmul_def dot_def ex_fields)
  have c: "converged ?p [[0, 30]] [[0, 30]]"
    by (rule converged_upper[where u = 0 and l = 0])
       (simp_all add: ex_fields sum_sq_def mat_sub_def power2_eq_square)
  show ?thesis
    unfolding mu_chunk_def n ex_fields by (rule mu_loop_stop[OF s c])
qed

section \<open>The descent inequality of the multiplicative update\<close>

text \<open>
  One row, written with indexed sums: \<open>w\<close> is the basis, \<open>x\<close> the data row, \<open>h\<close> the coefficients
  before and \<open>h'\<close> after the update \<open>h' j = h j * b j / d j\<close>, with \<open>b = x W\<^sup>T\<close> and
  \<open>d = h W W\<^sup>T\<close>. The squared residual does not grow. The proof is the majorisation argument
  for multiplicative updates: the quadratic form of \<open>W W\<^sup>T\<close> is bounded by the diagonal form
  with entries \<open>d j / h j\<close>.
\<close>

lemma sym_quadratic_le:
  fixes c :: "nat \<Rightarrow> nat \<Rightarrow> real" and u :: "nat \<Rightarrow> real"
  assumes nn: "\<And>j l. j < k \<Longrightarrow> l < k \<Longrightarrow> 0 \<le> c j l"
    and sym: "\<And>j l. c j l = c l j"
  shows "(\<Sum>j<k. \<Sum>l<k. c j l * (u j * u l)) \<le> (\<Sum>j<k. \<Sum>l<k. c j l * (u j)\<^sup>2)"
proof -
  have tm: "2 * (c j l * (u j * u l)) \<le> c j l * (u j)\<^sup>2 + c j l * (u l)\<^sup>2"
    if "j < k" "l < k" for j l
  proof -
    have "2 * (u j * u l) \<le> (u j)\<^sup>2 + (u l)\<^sup>2"
      using sum_squares_bound[of "u j" "u l"] by (simp add: mult.assoc)
    from mult_left_mono[OF this nn[OF that]] show ?thesis by (simp add: algebra_simps)
  qed
  have "2 * (\<Sum>j<k. \<Sum>l<k. c j l * (u j * u l)) = (\<Sum>j<k. \<Sum>l<k. 2 * (c j l * (u j * u l)))"
    by (simp add: sum_distrib_left)
  also have "\<dots> \<le> (\<Sum>j<k. \<Sum>l<k. (c j l * (u j)\<^sup>2 + c j l * (u l)\<^sup>2))"
    by (intro sum_mono tm) simp_all
  also have "\<dots> = (\<Sum>j<k. \<Sum>l<k. c j l * (u j)\<^sup>2) + (\<Sum>j<k. \<Sum>l<k. c j l * (u l)\<^sup>2)"
    by (simp add: sum.distrib)
  also have "(\<Sum>j<k. \<Sum>l<k. c j l * (u l)\<^sup>2) = (\<Sum>l<k. \<Sum>j<k. c j l * (u l)\<^sup>2)"
    by (rule sum.swap)
  also have "\<dots> = (\<Sum>l<k. \<Sum>j<k. c l j * (u l)\<^sup>2)"
    by (subst sym) (rule refl)
  finally show ?thesis by simp
qed

lemma lee_seung_row:
  fixes x :: "nat \<Rightarrow> real" and w :: "nat \<Rightarrow> nat \<Rightarrow> real" and h h' :: "nat \<Rightarrow> real"
  assumes w: "\<And>j g. j < k \<Longrightarrow> g < f \<Longrightarrow> 0 \<le> w j g"
    and h: "\<And>j. j < k \<Longrightarrow> 0 \<le> h j"
    and upd: "\<And>j. j < k \<Longrightarrow> 0 < h j \<Longrightarrow>
          0 < (\<Sum>l<k. h l * (\<Sum>g<f. w l g * w j g)) \<and>
          h' j = h j * ((\<Sum>g<f. x g * w j g) / (\<Sum>l<k. h l * (\<Sum>g<f. w l g * w j g)))"
    and zero: "\<And>j. j < k \<Longrightarrow> h j = 0 \<Longrightarrow> h' j = 0"
  shows "(\<Sum>g<f. (x g - (\<Sum>l<k. h' l * w l g))\<^sup>2) \<le> (\<Sum>g<f. (x g - (\<Sum>l<k. h l * w l g))\<^sup>2)"
proof -
  define A where "A j l = (\<Sum>g<f. w j g * w l g)" for j l
  define b where "b j = (\<Sum>g<f. x g * w j g)" for j
  define d where "d j = (\<Sum>l<k. h l * A l j)" for j
  define r where "r g = x g - (\<Sum>l<k. h l * w l g)" for g
  define \<delta> where "\<delta> j = h' j - h j" for j
  define s where "s g = (\<Sum>l<k. \<delta> l * w l g)" for g
  define u where "u j = \<delta> j / h j" for j
  define c where "c j l = h j * h l * A j l" for j l
  have A_sym: "A j l = A l j" for j l by (simp add: A_def mult.commute)
  have A_nn: "0 \<le> A j l" if "j < k" "l < k" for j l
    unfolding A_def using that by (intro sum_nonneg mult_nonneg_nonneg w) simp_all
  have d_nn: "0 \<le> d j" if "j < k" for j
    unfolding d_def using that by (intro sum_nonneg mult_nonneg_nonneg h A_nn) simp_all
  have upd': "0 < d j \<and> h' j = h j * (b j / d j)" if "j < k" "0 < h j" for j
    using upd[OF that] by (simp add: d_def A_def b_def)
  have split: "x g - (\<Sum>l<k. h' l * w l g) = r g - s g" for g
    by (simp add: r_def s_def \<delta>_def sum_subtractf left_diff_distrib)
  have delta_u: "\<delta> j = u j * h j" if "j < k" for j
  proof (cases "h j = 0")
    case True with zero[OF that] show ?thesis by (simp add: \<delta>_def)
  next
    case False then show ?thesis by (simp add: u_def)
  qed
  have rs: "(\<Sum>g<f. r g * s g) = (\<Sum>j<k. \<delta> j * (b j - d j))"
  proof -
    have "(\<Sum>g<f. r g * s g) = (\<Sum>g<f. \<Sum>j<k. \<delta> j * (r g * w j g))"
      by (simp add: s_def sum_distrib_left mult_ac)
    also have "\<dots> = (\<Sum>j<k. \<Sum>g<f. \<delta> j * (r g * w j g))" by (rule sum.swap)
    also have "\<dots> = (\<Sum>j<k. \<delta> j * (\<Sum>g<f. r g * w j g))" by (simp add: sum_distrib_left)
    also have "\<dots> = (\<Sum>j<k. \<delta> j * (b j - d j))"
    proof -
      have "(\<Sum>g<f. r g * w j g) = b j - d j" for j
      proof -
        have "(\<Sum>l<k. h l * w l g) * w j g = (\<Sum>l<k. h l * (w l g * w j g))" for g
          by (simp add: sum_distrib_right mult.assoc)
        then have "r g * w j g = x g * w j g - (\<Sum>l<k. h l * (w l g * w j g))" for g
          by (simp add: r_def left_diff_distrib)
        then have "(\<Sum>g<f. r g * w j g) = b j - (\<Sum>g<f. \<Sum>l<k. h l * (w l g * w j g))"
          by (simp add: b_def sum_subtractf)
        also have "(\<Sum>g<f. \<Sum>l<k. h l * (w l g * w j g)) = (\<Sum>l<k. \<Sum>g<f. h l * (w l g * w j g))"
          by (rule sum.swap)
        also have "\<dots> = d j" by (simp add: d_def A_def sum_distrib_left)
        finally show ?thesis .
      qed
      then show ?thesis by simp
    qed
    finally show ?thesis .
  qed
  have ss: "(\<Sum>g<f. (s g)\<^sup>2) = (\<Sum>j<k. \<Sum>l<k. c j l * (u j * u l))"
  proof -
    have "(\<Sum>g<f. (s g)\<^sup>2) = (\<Sum>g<f. \<Sum>j<k. \<Sum>l<k. (\<delta> j * \<delta> l) * (w j g * w l g))"
      by (simp add: s_def power2_eq_square sum_product mult_ac)
    also have "\<dots> = (\<Sum>j<k. \<Sum>g<f. \<Sum>l<k. (\<delta> j * \<delta> l) * (w j g * w l g))" by (rule sum.swap)
    also have "\<dots> = (\<Sum>j<k. \<Sum>l<k. \<Sum>g<f. (\<delta> j * \<delta> l) * (w j g * w l g))"
      by (intro sum.cong refl sum.swap)
    also have "\<dots> = (\<Sum>j<k. \<Sum>l<k. (\<delta> j * \<delta> l) * A j l)"
      by (simp add: A_def sum_distrib_left)
    also have "\<dots> = (\<Sum>j<k. \<Sum>l<k. c j l * (u j * u l))"
      by (intro sum.cong refl) (simp add: delta_u c_def)
    finally show ?thesis .
  qed
  have Q: "(\<Sum>j<k. \<delta> j * (b j - d j)) = (\<Sum>j<k. \<Sum>l<k. c j l * (u j)\<^sup>2)"
  proof (intro sum.cong refl)
    fix j assume "j \<in> {..<k}"
    then have j: "j < k" by simp
    have "\<delta> j * (b j - d j) = (u j)\<^sup>2 * h j * d j"
    proof (cases "h j = 0")
      case True with zero[OF j] show ?thesis by (simp add: \<delta>_def)
    next
      case False
      with h[OF j] have pos: "0 < h j" by simp
      from upd'[OF j pos] have dj: "0 < d j" and h': "h' j = h j * (b j / d j)" by simp_all
      have "\<delta> j * d j = h j * (b j - d j)" using dj by (simp add: \<delta>_def h' field_simps)
      then have "b j - d j = \<delta> j * d j / h j" using pos by (simp add: field_simps)
      then show ?thesis using pos by (simp add: u_def power2_eq_square field_simps)
    qed
    also have "\<dots> = (\<Sum>l<k. c j l * (u j)\<^sup>2)"
      by (simp add: d_def c_def sum_distrib_left sum_distrib_right mult_ac A_sym[of j])
    finally show "\<delta> j * (b j - d j) = (\<Sum>l<k. c j l * (u j)\<^sup>2)" .
  qed
  have c_nn: "0 \<le> c j l" if "j < k" "l < k" for j l
    unfolding c_def using that by (intro mult_nonneg_nonneg h A_nn)
  have c_sym: "c j l = c l j" for j l by (simp add: c_def A_sym[of j l] mult_ac)
  have le: "(\<Sum>g<f. (s g)\<^sup>2) \<le> (\<Sum>g<f. r g * s g)"
    unfolding ss rs Q by (rule sym_quadratic_le[OF c_nn c_sym])
  have Q_nn: "0 \<le> (\<Sum>g<f. r g * s g)"
    unfolding rs Q by (intro sum_nonneg mult_nonneg_nonneg c_nn) simp_all
  have "(\<Sum>g<f. (x g - (\<Sum>l<k. h' l * w l g))\<^sup>2) = (\<Sum>g<f. (r g - s g)\<^sup>2)"
    by (simp add: split)
  also have "\<dots> = (\<Sum>g<f. (r g)\<^sup>2) - 2 * (\<Sum>g<f. r g * s g) + (\<Sum>g<f. (s g)\<^sup>2)"
    by (simp add: power2_diff sum.distrib sum_subtractf sum_distrib_left mult.assoc)
  also have "\<dots> \<le> (\<Sum>g<f. (r g)\<^sup>2)" using le Q_nn by linarith
  finally show ?thesis by (simp add: r_def)
qed

section \<open>Entries of the products as sums, and the descent of one update\<close>

lemma dot_sum: "length u = length v \<Longrightarrow> dot u v = (\<Sum>l<length u. u ! l * v ! l)"
  by (simp add: dot_def sum_list_sum_nth atLeast0LessThan)

lemma sum_list_map_nth: "sum_list (map F xs) = (\<Sum>i<length xs. F (xs ! i))"
  by (simp add: sum_list_sum_nth atLeast0LessThan)

lemma sum_sq_sum:
  assumes "has_shape c f M"
  shows "sum_sq M = (\<Sum>i<c. \<Sum>g<f. (M ! i ! g)\<^sup>2)"
proof -
  have "sum_sq M = (\<Sum>i<length M. \<Sum>g<length (M ! i). (M ! i ! g)\<^sup>2)"
    by (simp add: sum_sq_def sum_list_map_nth)
  also have "\<dots> = (\<Sum>i<c. \<Sum>g<f. (M ! i ! g)\<^sup>2)"
    using assms by (intro sum.cong) (simp_all add: has_shape_iff)
  finally show ?thesis .
qed

lemma matmul_nth:
  assumes "has_shape k f W" "0 < k" "has_shape c k h" "i < c" "g < f"
  shows "matmul h W ! i ! g = (\<Sum>l<k. h ! i ! l * W ! l ! g)"
proof -
  have li: "length (h ! i) = k" by (rule has_shape_nth[OF assms(3,4)])
  have lW: "length W = k" by (rule has_shape_length[OF assms(1)])
  have "matmul h W ! i ! g = dot (h ! i) (map (\<lambda>r. r ! g) W)"
    using assms by (simp add: matmul_def transpose_rect[OF assms(1,2)] has_shape_iff)
  also have "\<dots> = (\<Sum>l<k. h ! i ! l * W ! l ! g)"
    using li lW by (subst dot_sum) simp_all
  finally show ?thesis .
qed

lemma has_shape_matmul:
  assumes "has_shape k f W" "0 < k" "has_shape c k h"
  shows "has_shape c f (matmul h W)"
  using assms by (simp add: matmul_def transpose_rect[OF assms(1,2)] has_shape_iff)

lemma has_shape_mat_sub:
  assumes "has_shape c f A" "has_shape c f B"
  shows "has_shape c f (mat_sub A B)"
proof -
  have "length r = f" if "r \<in> set (mat_sub A B)" for r
  proof -
    from that obtain a b where "(a, b) \<in> set (zip A B)" "r = map2 (-) a b"
      by (auto simp: mat_sub_def)
    then have "a \<in> set A" "b \<in> set B" by (auto dest: set_zip_leftD set_zip_rightD)
    with assms \<open>r = map2 (-) a b\<close> show ?thesis by (simp add: has_shape_iff)
  qed
  with assms show ?thesis by (simp add: has_shape_iff mat_sub_def)
qed

lemma mat_sub_nth:
  assumes "has_shape c f A" "has_shape c f B" "i < c" "g < f"
  shows "mat_sub A B ! i ! g = A ! i ! g - B ! i ! g"
  using assms has_shape_nth[OF assms(1,3)] has_shape_nth[OF assms(2,3)]
  by (simp add: mat_sub_def has_shape_iff)

lemma recon_sq:
  assumes "has_shape k f W" "0 < k" "has_shape c k h" "has_shape c f x"
  shows "sum_sq (mat_sub x (matmul h W)) =
         (\<Sum>i<c. \<Sum>g<f. (x ! i ! g - (\<Sum>l<k. h ! i ! l * W ! l ! g))\<^sup>2)"
proof -
  note sm = has_shape_matmul[OF assms(1,2,3)]
  have "sum_sq (mat_sub x (matmul h W)) = (\<Sum>i<c. \<Sum>g<f. (mat_sub x (matmul h W) ! i ! g)\<^sup>2)"
    by (rule sum_sq_sum[OF has_shape_mat_sub[OF assms(4) sm]])
  also have "\<dots> = (\<Sum>i<c. \<Sum>g<f. (x ! i ! g - (\<Sum>l<k. h ! i ! l * W ! l ! g))\<^sup>2)"
    by (intro sum.cong refl)
       (simp add: mat_sub_nth[OF assms(4) sm] matmul_nth[OF assms(1,2,3)])
  finally show ?thesis .
qed

lemma WWT_nth:
  assumes "has_shape k f W" "l < k" "j < k"
  shows "matmul_T W W ! l ! j = (\<Sum>g<f. W ! l ! g * W ! j ! g)"
  using assms has_shape_nth[OF assms(1,2)] has_shape_nth[OF assms(1,3)]
  by (simp add: matmul_T_def has_shape_iff dot_sum)

lemma denom_row_nth:
  assumes "has_shape k f W" "0 < k" "length hr = k" "j < k" "l2_reg_H p \<le> 0"
  shows "denom_row p (matmul_T W W) hr ! j = (\<Sum>l<k. hr ! l * (\<Sum>g<f. W ! l ! g * W ! j ! g))"
proof -
  have s: "has_shape k k (matmul_T W W)"
    using assms(1) by (intro has_shape_matmul_T) (simp_all add: has_shape_iff)
  have "denom_row p (matmul_T W W) hr ! j = dot hr (map (\<lambda>r. r ! j) (matmul_T W W))"
    using assms by (simp add: denom_row_def transpose_rect[OF s assms(2)])
  also have "\<dots> = (\<Sum>l<k. hr ! l * matmul_T W W ! l ! j)"
    using assms(3) has_shape_length[OF s] by (subst dot_sum) simp_all
  also have "\<dots> = (\<Sum>l<k. hr ! l * (\<Sum>g<f. W ! l ! g * W ! j ! g))"
    by (intro sum.cong refl) (simp add: WWT_nth[OF assms(1) _ assms(4)])
  finally show ?thesis .
qed

lemma mu_numer_nth:
  assumes "has_shape k f W" "has_shape c f x" "i < c" "j < k" "l1_reg_H p \<le> 0"
  shows "mu_numer p W x ! i ! j = (\<Sum>g<f. x ! i ! g * W ! j ! g)"
  using assms has_shape_nth[OF assms(1,4)] has_shape_nth[OF assms(2,3)]
  by (simp add: mu_numer_def matmul_T_def has_shape_iff dot_sum)

lemma nonneg_nth: "nonneg M \<Longrightarrow> i < length M \<Longrightarrow> j < length (M ! i) \<Longrightarrow> 0 \<le> M ! i ! j"
  by (auto simp: nonneg_iff dest!: nth_mem)

lemma mu_step_descent:
  assumes W: "has_shape k f W" "nonneg W" and k: "0 < k"
    and x: "has_shape c f x" and h: "has_shape c k h" "nonneg h"
    and reg: "l1_reg_H p \<le> 0" "l2_reg_H p \<le> 0"
    and step: "mu_step p (matmul_T W W) (mu_numer p W x) h = Some h'"
    and keep: "\<forall>i<c. \<forall>j<k. 0 < h ! i ! j \<longrightarrow> epsilon p \<le> mu_denom p (matmul_T W W) h ! i ! j"
  shows "recon_error x h' W \<le> recon_error x h W"
proof -
  let ?WWT = "matmul_T W W" and ?n = "mu_numer p W x"
  have sW: "has_shape k k ?WWT"
    using W(1) by (intro has_shape_matmul_T) (simp_all add: has_shape_iff)
  have sn: "has_shape c k ?n"
    using W(1) x by (intro has_shape_mu_numer) (simp_all add: has_shape_iff)
  have sh': "has_shape c k h'" by (rule mu_step_Some_shape[OF step sW sn h(1)])
  have row: "(\<Sum>g<f. (x ! i ! g - (\<Sum>l<k. h' ! i ! l * W ! l ! g))\<^sup>2)
          \<le> (\<Sum>g<f. (x ! i ! g - (\<Sum>l<k. h ! i ! l * W ! l ! g))\<^sup>2)" if i: "i < c" for i
  proof (rule lee_seung_row)
    fix j g assume "j < k" "g < f"
    then show "0 \<le> W ! j ! g"
      using W by (intro nonneg_nth) (simp_all add: has_shape_iff)
  next
    fix j assume "j < k"
    then show "0 \<le> h ! i ! j"
      using h i by (intro nonneg_nth) (simp_all add: has_shape_iff)
  next
    fix j assume j: "j < k" and z: "h ! i ! j = 0"
    show "h' ! i ! j = 0"
      using sh' i j by (intro mu_step_zero[OF step _ _ z]) (simp_all add: has_shape_iff)
  next
    fix j assume j: "j < k" and pos: "0 < h ! i ! j"
    let ?d = "\<Sum>l<k. h ! i ! l * (\<Sum>g<f. W ! l ! g * W ! j ! g)"
    let ?b = "\<Sum>g<f. x ! i ! g * W ! j ! g"
    have li: "i < length h'" "j < length (h' ! i)" using sh' i j by (simp_all add: has_shape_iff)
    have d: "denom_row p ?WWT (h ! i) ! j = ?d"
      by (rule denom_row_nth[OF W(1) k has_shape_nth[OF h(1) i] j reg(2)])
    have b: "?n ! i ! j = ?b" by (rule mu_numer_nth[OF W(1) x i j reg(1)])
    have e: "entry_update p (h ! i ! j) ?b ?d = Some (h' ! i ! j)"
      using mu_step_Some_entry(2)[OF step li] by (simp add: d b)
    have "mu_denom p ?WWT h ! i = denom_row p ?WWT (h ! i)"
      using h(1) i by (intro mu_denom_nth) (simp add: has_shape_iff)
    moreover from keep i j pos have "epsilon p \<le> mu_denom p ?WWT h ! i ! j" by blast
    ultimately have ge: "epsilon p \<le> ?d" using d by simp
    have "0 \<le> ?d"
    proof (intro sum_nonneg mult_nonneg_nonneg)
      fix l assume "l \<in> {..<k}"
      then show "0 \<le> h ! i ! l" using h i by (intro nonneg_nth) (simp_all add: has_shape_iff)
    next
      fix l g assume "l \<in> {..<k}" "g \<in> {..<f}"
      then show "0 \<le> W ! l ! g" using W by (intro nonneg_nth) (simp_all add: has_shape_iff)
    next
      fix g assume "g \<in> {..<f}"
      then show "0 \<le> W ! j ! g" using W j by (intro nonneg_nth) (simp_all add: has_shape_iff)
    qed
    moreover from e ge have "?d \<noteq> 0" "h' ! i ! j = h ! i ! j * (?b / ?d)"
      by (auto simp: entry_update_def fdiv_def split: if_splits)
    ultimately show "0 < ?d \<and> h' ! i ! j = h ! i ! j * (?b / ?d)" by simp
  qed
  have "sum_sq (mat_sub x (matmul h' W)) \<le> sum_sq (mat_sub x (matmul h W))"
    unfolding recon_sq[OF W(1) k sh' x] recon_sq[OF W(1) k h(1) x]
    by (intro sum_mono row) simp
  then show ?thesis by (simp add: recon_error_def fro_norm_def)
qed

lemma ex_floor_step:
  "mu_step default_params (matmul_T [[1/10^9]] [[1/10^9]])
      (mu_numer default_params [[1/10^9]] [[1/10^9]]) [[1/2]] = Some [[0]]"
  by (simp add: mu_step_def mu_rates_def mu_h_new_def all_finite_def fdiv_def mu_denom_def
      mu_numer_def matmul_T_def matmul_def dot_def default_params_def)

lemma ex_floor_before: "recon_error [[1/10^9]] [[1/2]] [[1/10^9]] = 1 / (2 * 10^9)"
proof -
  have "sum_sq (mat_sub [[1/10^9]] (matmul [[1/2]] [[1/10^9]])) = (1 / (2 * 10^9))\<^sup>2"
    by (simp add: sum_sq_def mat_sub_def matmul_def dot_def power2_eq_square)
  then show ?thesis by (simp add: recon_error_def fro_norm_def)
qed

lemma ex_floor_after: "recon_error [[1/10^9]] [[0]] [[1/10^9]] = 1 / 10^9"
proof -
  have "sum_sq (mat_sub [[1/10^9]] (matmul [[0]] [[1/10^9]])) = (1 / 10^9)\<^sup>2"
    by (simp add: sum_sq_def mat_sub_def matmul_def dot_def power2_eq_square)
  then show ?thesis by (simp add: recon_error_def fro_norm_def)
qed

section \<open>The accumulated normal equations\<close>

lemma zeros_gram: "zeros p t = gram p t [] []"
  by (simp add: zeros_def gram_def map_replicate_const)

lemma has_shape_gram: "has_shape p t (gram p t A B)"
  by (auto simp: has_shape_iff gram_def)

lemma dot_columns:
  "dot (map (\<lambda>r. r ! i) A) (map (\<lambda>r. r ! j) B) = sum_list (map2 (\<lambda>a b. a ! i * b ! j) A B)"
  by (simp add: dot_def zip_map_map split_def o_def)

lemma matmul_transpose_gram:
  assumes "has_shape m p A" "has_shape m t B" "0 < m"
  shows "matmul (transpose A) B = gram p t A B"
  by (simp add: matmul_def transpose_rect[OF assms(1,3)] transpose_rect[OF assms(2,3)]
      gram_def dot_columns)

lemma mat_add_gram:
  assumes "length A1 = length B1"
  shows "mat_add (gram p t A1 B1) (gram p t A2 B2) = gram p t (A1 @ A2) (B1 @ B2)"
  using assms by (simp add: mat_add_def gram_def map2_same)

lemma ols_targets_slice:
  "ols_targets scaling (take a (drop b Y)) = take a (drop b (ols_targets scaling Y))"
  by (cases scaling) (auto simp: ols_targets_def normalize_rows_def take_map drop_map)

lemma ols_batch_targets:
  "ols_batch X Y bs scaling s acc =
     (let e = min (s + bs) (length X);
          Xb = take (e - s) (drop s X);
          Yb = take (e - s) (drop s (ols_targets scaling Y))
      in (mat_add (fst acc) (matmul (transpose Xb) Xb), mat_add (snd acc) (matmul (transpose Xb) Yb)))"
proof -
  have "(case scaling of None \<Rightarrow> take a (drop b Y)
         | Some (meanY, stdY) \<Rightarrow> normalize_rows meanY stdY (take a (drop b Y)))
      = take a (drop b (ols_targets scaling Y))" for a b
    using ols_targets_slice[of scaling a b Y] by (simp add: ols_targets_def)
  then show ?thesis by (simp add: ols_batch_def Let_def nrows_def)
qed

lemma has_shape_ols_targets:
  assumes "has_shape n t Y"
    and "case scaling of None \<Rightarrow> True | Some (meanY, stdY) \<Rightarrow> length meanY = t \<and> length stdY = t"
  shows "has_shape n t (ols_targets scaling Y)"
  using assms by (cases scaling) (auto simp: ols_targets_def normalize_rows_def has_shape_iff)

lemma ols_batch_gram:
  assumes X: "has_shape n p X" and Y: "has_shape n t Y'" and s: "s < n" and bs: "0 < bs"
    and Y': "Y' = ols_targets scaling Y"
  shows "ols_batch X Y bs scaling s
           (gram p p (take s X) (take s X), gram p t (take s X) (take s Y')) =
         (gram p p (take (min (s + bs) n) X) (take (min (s + bs) n) X),
          gram p t (take (min (s + bs) n) X) (take (min (s + bs) n) Y'))"
proof -
  let ?e = "min (s + bs) n"
  let ?Xb = "take (?e - s) (drop s X)" and ?Yb = "take (?e - s) (drop s Y')"
  have n: "length X = n" "length Y' = n" using X Y by (simp_all add: has_shape_iff)
  have m: "0 < ?e - s" using s bs by simp
  have sX: "has_shape (?e - s) p ?Xb"
    using has_shape_slice[OF X, of "?e - s" s] s by (simp add: min_def split: if_splits)
  have sY: "has_shape (?e - s) t ?Yb"
    using has_shape_slice[OF Y, of "?e - s" s] s by (simp add: min_def split: if_splits)
  have tX: "take ?e X = take s X @ ?Xb" using take_add[of s "?e - s" X] s by simp
  have tY: "take ?e Y' = take s Y' @ ?Yb" using take_add[of s "?e - s" Y'] s by simp
  have l: "length (take s X) = length (take s X)" "length (take s X) = length (take s Y')"
    using n by simp_all
  show ?thesis
    unfolding ols_batch_targets Let_def n Y'[symmetric] fst_conv snd_conv
      matmul_transpose_gram[OF sX sX m] matmul_transpose_gram[OF sX sY m]
      mat_add_gram[OF l(1)] mat_add_gram[OF l(2)] tX[symmetric] tY[symmetric] ..
qed

lemma ols_fold_gram:
  assumes X: "has_shape n p X" and Y: "has_shape n t Y'" and bs: "0 < bs"
    and Y': "Y' = ols_targets scaling Y"
  shows "fold (ols_batch X Y bs scaling) (range_from s n bs)
           (gram p p (take (min s n) X) (take (min s n) X),
            gram p t (take (min s n) X) (take (min s n) Y')) =
         (gram p p X X, gram p t X Y')"
proof (induction "n - s" arbitrary: s rule: less_induct)
  case less
  have n: "length X = n" "length Y' = n" using X Y by (simp_all add: has_shape_iff)
  show ?case
  proof (cases "s < n")
    case False
    then show ?thesis using n by (subst range_from.simps) (simp add: min_def)
  next
    case True
    have "n - (s + bs) < n - s" using True bs by simp
    from less[OF this]
    have "fold (ols_batch X Y bs scaling) (range_from (s + bs) n bs)
           (gram p p (take (min (s + bs) n) X) (take (min (s + bs) n) X),
            gram p t (take (min (s + bs) n) X) (take (min (s + bs) n) Y')) =
         (gram p p X X, gram p t X Y')" .
    moreover have "min s n = s" using True by simp
    ultimately show ?thesis
      using True bs by (subst range_from.simps) (simp add: ols_batch_gram[OF X Y True bs Y'])
  qed
qed

lemma ncols_shape: "has_shape n c M \<Longrightarrow> 0 < n \<Longrightarrow> ncols M = c"
  by (cases M) (auto simp: ncols_def has_shape_iff)

lemma ols_closed_form:
  assumes X: "has_shape n p X" and Y: "has_shape n t Y" and n: "0 < n" and b: "1 \<le> b"
    and sc: "normalize_y \<longrightarrow> length (fst (scaler Y)) = t \<and> length (snd (scaler Y)) = t"
  shows "efficient_ols_all_cols scaler lstsq X Y b normalize_y =
           Inr (lstsq (matmul (transpose X) X)
                  (matmul (transpose X) (ols_targets (ols_scaling scaler Y normalize_y) Y)))"
    and "has_shape n t (ols_targets (ols_scaling scaler Y normalize_y) Y)"
proof -
  let ?sc = "ols_scaling scaler Y normalize_y"
  let ?Y = "ols_targets ?sc Y"
  have "case ?sc of None \<Rightarrow> True | Some (meanY, stdY) \<Rightarrow> length meanY = t \<and> length stdY = t"
    using sc by (auto simp: ols_scaling_def get_mean_var_def floor_var_def split_def Let_def)
  then show sY: "has_shape n t ?Y" by (rule has_shape_ols_targets[OF Y])
  have nb: "0 < nat b" using b by simp
  have rows: "nrows X = n" "nrows Y = n" using X Y by (simp_all add: nrows_def has_shape_iff)
  have r: "py_range0 n b = Inr (range_from 0 n (nat b))" using b by (simp add: py_range0_def)
  have f: "fold (ols_batch X Y (nat b) ?sc) (range_from 0 n (nat b))
             (zeros p p, zeros p t) = (gram p p X X, gram p t X ?Y)"
    using ols_fold_gram[OF X sY nb refl, of 0] by (simp add: zeros_gram)
  show "efficient_ols_all_cols scaler lstsq X Y b normalize_y =
           Inr (lstsq (matmul (transpose X) X) (matmul (transpose X) ?Y))"
  proof -
    have "efficient_ols_all_cols scaler lstsq X Y b normalize_y =
        (case fold (ols_batch X Y (nat b) ?sc) (range_from 0 n (nat b)) (zeros p p, zeros p t) of
           (XtX', XtY') \<Rightarrow> Inr (lstsq XtX' XtY'))"
      by (simp add: efficient_ols_all_cols_def Let_def rows r ncols_shape[OF X n]
          ncols_shape[OF Y n])
    also have "\<dots> = Inr (lstsq (gram p p X X) (gram p t X ?Y))"
      by (simp only: f prod.case)
    finally show ?thesis
      by (simp only: matmul_transpose_gram[OF X X n] matmul_transpose_gram[OF X sY n])
  qed
qed

section \<open>Distances, the smallest entries of a row, and the filter\<close>

lemma euclidean_self: "euclidean a a = 0"
proof -
  have "map2 (\<lambda>x y. (x - y)\<^sup>2) a a = map (\<lambda>x. 0) a"
    by (simp add: zip_same_conv_map)
  then show ?thesis by (simp add: euclidean_def)
qed

lemma euclidean_nonneg: "0 \<le> euclidean a b"
  unfolding euclidean_def by (intro real_sqrt_ge_zero sum_list_nonneg) auto

lemma distances_row:
  assumes "i < length L"
  shows "euclidean_distances L ! i = map (euclidean (L ! i)) L"
  using assms by (simp add: euclidean_distances_def)

lemma ex_lowest:
  assumes "finite A"
  shows "m \<le> card A \<Longrightarrow> \<exists>S. lowest m A f S"
proof (induction m)
  case 0
  show ?case by (rule exI[of _ "{}"]) (simp add: lowest_def)
next
  case (Suc m)
  then obtain S where S: "lowest m A f S" by auto
  then have sub: "S \<subseteq> A" and c: "card S = m" and lo: "\<forall>j\<in>S. \<forall>j'\<in>A - S. f j \<le> f j'"
    by (simp_all add: lowest_def)
  have fS: "finite S" using sub assms by (rule finite_subset)
  have "card (A - S) = card A - card S" using sub assms fS by (simp add: card_Diff_subset)
  with Suc.prems c have "card (A - S) \<noteq> 0" by simp
  then have ne: "A - S \<noteq> {}" by (metis card.empty)
  have fin: "finite (f ` (A - S))" using assms by simp
  define v where "v = Min (f ` (A - S))"
  have "v \<in> f ` (A - S)" unfolding v_def using fin ne by (intro Min_in) simp_all
  then obtain a where a: "a \<in> A - S" and va: "f a = v" by auto
  have least: "v \<le> f j'" if "j' \<in> A - S" for j'
    unfolding v_def using fin that by (intro Min_le) simp_all
  have "lowest (Suc m) A f (insert a S)"
    unfolding lowest_def
  proof (intro conjI ballI)
    show "insert a S \<subseteq> A" using a sub by simp
    show "card (insert a S) = Suc m" using a fS c by simp
  next
    fix j j' assume j: "j \<in> insert a S" and j': "j' \<in> A - insert a S"
    then have j'2: "j' \<in> A - S" by auto
    show "f j \<le> f j'"
    proof (cases "j = a")
      case True with least[OF j'2] va show ?thesis by simp
    next
      case False with j have "j \<in> S" by simp
      with lo j'2 show ?thesis by simp
    qed
  qed
  then show ?case ..
qed

lemma mset_nth_image:
  fixes xs :: "real list"
  shows "mset xs = image_mset (nth xs) (mset_set {..<length xs})"
proof -
  have "mset xs = mset (map (nth xs) [0..<length xs])" by (simp add: map_nth)
  also have "\<dots> = image_mset (nth xs) (mset [0..<length xs])" by simp
  also have "mset [0..<length xs] = mset_set {0..<length xs}" by (simp add: mset_upt)
  also have "{0..<length xs} = {..<length xs}" by auto
  finally show ?thesis .
qed

lemma sum_smallest_lowest:
  fixes xs :: "real list"
  assumes "lowest m {..<length xs} (\<lambda>j. xs ! j) S"
  shows "sum_list (smallest m xs) = (\<Sum>j\<in>S. xs ! j)"
proof -
  let ?R = "{..<length xs} - S"
  from assms have sub: "S \<subseteq> {..<length xs}" and c: "card S = m"
    and lo: "\<forall>j\<in>S. \<forall>j'\<in>?R. xs ! j \<le> xs ! j'"
    by (simp_all add: lowest_def)
  have fS: "finite S" using sub by (rule finite_subset) simp
  define A where "A = image_mset (nth xs) (mset_set S)"
  define B where "B = image_mset (nth xs) (mset_set ?R)"
  define as where "as = sorted_list_of_multiset A"
  define bs where "bs = sorted_list_of_multiset B"
  have "mset_set {..<length xs} = mset_set (S \<union> ?R)" using sub by (simp add: Un_absorb1)
  also have "\<dots> = mset_set S + mset_set ?R" using fS by (intro mset_set_Union) auto
  finally have "mset xs = A + B" by (subst mset_nth_image) (simp add: A_def B_def)
  then have m: "mset (as @ bs) = mset xs" by (simp add: as_def bs_def)
  have sa: "set as = nth xs ` S" using fS by (simp add: as_def A_def)
  have sb: "set bs = nth xs ` ?R" by (simp add: bs_def B_def)
  have "x \<le> y" if "x \<in> set as" "y \<in> set bs" for x y
    using that lo unfolding sa sb by auto
  then have "sorted (as @ bs)"
    by (simp add: sorted_append as_def bs_def)
  with m have s: "sort xs = as @ bs" by (metis properties_for_sort)
  have "length as = m" using c by (simp add: as_def A_def flip: size_mset)
  with s have "smallest m xs = as" by (simp add: smallest_def)
  moreover have "sum_list as = sum_mset (mset as)" by (simp add: sum_mset_sum_list)
  moreover have "mset as = A" by (simp add: as_def)
  moreover have "sum_mset A = (\<Sum>j\<in>S. xs ! j)" by (simp add: A_def sum_unfold_sum_mset)
  ultimately show ?thesis by simp
qed

lemma density_row_lowest:
  assumes i: "i < length L"
    and S: "lowest n ({..<length L} - {i}) (\<lambda>j. euclidean (L ! i) (L ! j)) S"
  shows "sum_list (smallest (Suc n) (euclidean_distances L ! i)) = (\<Sum>j\<in>S. euclidean (L ! i) (L ! j))"
proof -
  let ?xs = "map (euclidean (L ! i)) L"
  from S have sub: "S \<subseteq> {..<length L} - {i}" and c: "card S = n"
    and lo: "\<forall>j\<in>S. \<forall>j'\<in>{..<length L} - {i} - S. euclidean (L ! i) (L ! j) \<le> euclidean (L ! i) (L ! j')"
    by (simp_all add: lowest_def)
  have fS: "finite S" using sub by (rule finite_subset) simp
  have iS: "i \<notin> S" using sub by auto
  have nth: "?xs ! j = euclidean (L ! i) (L ! j)" if "j < length L" for j using that by simp
  have "lowest (Suc n) {..<length ?xs} (\<lambda>j. ?xs ! j) (insert i S)"
    unfolding lowest_def
  proof (intro conjI ballI)
    show "insert i S \<subseteq> {..<length ?xs}" using i sub by auto
    show "card (insert i S) = Suc n" using fS iS c by simp
  next
    fix j j' assume j: "j \<in> insert i S" and j': "j' \<in> {..<length ?xs} - insert i S"
    then have lj': "j' < length L" and j'2: "j' \<in> {..<length L} - {i} - S" by auto
    have lj: "j < length L" using j i sub by auto
    show "?xs ! j \<le> ?xs ! j'"
    proof (cases "j = i")
      case True
      then show ?thesis using lj lj' by (simp add: euclidean_self euclidean_nonneg)
    next
      case False
      with j have "j \<in> S" by simp
      with lo j'2 show ?thesis using lj lj' by simp
    qed
  qed
  from sum_smallest_lowest[OF this]
  have "sum_list (smallest (Suc n) ?xs) = (\<Sum>j\<in>insert i S. ?xs ! j)" .
  also have "\<dots> = ?xs ! i + (\<Sum>j\<in>S. ?xs ! j)" using fS iS by simp
  also have "?xs ! i = 0" using i by (simp add: euclidean_self)
  also have "(\<Sum>j\<in>S. ?xs ! j) = (\<Sum>j\<in>S. euclidean (L ! i) (L ! j))"
    using sub by (intro sum.cong) auto
  finally show ?thesis by (simp add: distances_row[OF i])
qed

section \<open>Rounding to the nearest double\<close>

lemma pow2_powr: "pow2 e = 2 powr real_of_int e"
proof (cases "0 \<le> e")
  case True
  then have "2 powr real_of_int e = 2 powr real (nat e)" by simp
  also have "\<dots> = 2 ^ nat e" by (rule powr_realpow) simp
  finally show ?thesis using True by (simp add: pow2_def)
next
  case False
  define n where "n = nat (- e)"
  have e: "real_of_int e = - real n" using False by (simp add: n_def)
  have "2 powr real_of_int e = 2 powr (- real n)" by (simp only: e)
  also have "\<dots> = 1 / 2 powr real n" by (rule powr_minus_divide)
  also have "2 powr real n = (2::real) ^ n" by (rule powr_realpow) simp
  finally show ?thesis using False by (simp add: pow2_def n_def)
qed

lemma floor_log2:
  assumes "pow2 e \<le> x" "x < pow2 (e + 1)"
  shows "\<lfloor>log 2 x\<rfloor> = e"
proof -
  have "0 < pow2 e" by (simp add: pow2_powr)
  with assms(1) have x: "0 < x" by simp
  have "real_of_int e \<le> log 2 x"
    using assms(1) x by (simp add: le_log_iff pow2_powr)
  moreover have "log 2 x < real_of_int e + 1"
    using assms(2) x by (simp add: log_less_iff pow2_powr)
  ultimately show ?thesis by (simp add: floor_unique)
qed

lemma pow2_1024: "2 ^ 64 < pow2 1024"
proof -
  have "(2::real) ^ 64 < 2 ^ 1024" by (rule power_strict_increasing) simp_all
  then show ?thesis by (simp only: pow2_def nat_numeral if_True zero_le_numeral)
qed

lemma float64_at:
  assumes "pow2 e \<le> \<bar>x\<bar>" "\<bar>x\<bar> < pow2 (e + 1)" "- 1022 \<le> e"
    and "y = real_of_int (round_half_even (x / pow2 (e - 52))) * pow2 (e - 52)"
    and "\<bar>y\<bar> \<le> 2 ^ 64"
  shows "float64 x = Some y"
proof -
  have "0 < pow2 e" by (simp add: pow2_powr)
  with assms(1) have "x \<noteq> 0" by auto
  moreover have "max \<lfloor>log 2 \<bar>x\<bar>\<rfloor> (- 1022) = e"
    using floor_log2[OF assms(1,2)] assms(3) by simp
  moreover have "\<not> pow2 1024 \<le> \<bar>y\<bar>" using assms(5) pow2_1024 by simp
  ultimately show ?thesis using assms(4) by (simp add: float64_def Let_def)
qed

lemma float64_1: "float64 1 = Some 1"
  by (rule float64_at[where e = 0]) (simp_all add: pow2_def round_half_even_def)

lemma float64_2: "float64 2 = Some 2"
  by (rule float64_at[where e = 1]) (simp_all add: pow2_def round_half_even_def)

lemma float64_half: "float64 (1/2) = Some (1/2)"
  by (rule float64_at[where e = "-1"]) (simp_all add: pow2_def round_half_even_def)

lemma float64_30: "float64 30 = Some 30"
  by (rule float64_at[where e = 4]) (simp_all add: pow2_def round_half_even_def)

lemma float64_three_tenths:
  "float64 (5404319552844595 / 2^54 * 100) = Some 30"
  by (rule float64_at[where e = 4]) (simp_all add: pow2_def round_half_even_def Let_def)

section \<open>The example with rational distances\<close>

lemma sqrt_eqI: "0 \<le> y \<Longrightarrow> x = y\<^sup>2 \<Longrightarrow> sqrt x = y"
  by simp

lemma ex_unit_distances:
  "euclidean [1, 0] [119/169, 120/169] = 10/13"
  "euclidean [1, 0] [7/25, 24/25] = 6/5"
  "euclidean [119/169, 120/169] [1, 0] = 10/13"
  "euclidean [119/169, 120/169] [7/25, 24/25] = 32/65"
  "euclidean [7/25, 24/25] [1, 0] = 6/5"
  "euclidean [7/25, 24/25] [119/169, 120/169] = 32/65"
  "euclidean [7/25, 24/25] [7/25, 24/25] = 0"
  unfolding euclidean_def by (rule sqrt_eqI; simp add: power2_eq_square)+

lemma ex_unit_nth:
  "ex_unit_rows ! 0 = [1, 0]" "ex_unit_rows ! 1 = [119/169, 120/169]"
  "ex_unit_rows ! 2 = [7/25, 24/25]" "ex_unit_rows ! 3 = [7/25, 24/25]"
  "ex_unit_rows ! Suc 0 = [119/169, 120/169]" "length ex_unit_rows = 4"
  by (simp_all add: ex_unit_rows_def numeral_3_eq_3 numeral_2_eq_2)

lemma lowest_singleton:
  assumes "a \<in> A" and "\<And>j'. j' \<in> A \<Longrightarrow> j' \<noteq> a \<Longrightarrow> f a \<le> f j'"
  shows "lowest 1 A f {a}"
  using assms by (auto simp: lowest_def)

lemma less_4_cases: "j < 4 \<Longrightarrow> j = 0 \<or> j = 1 \<or> j = 2 \<or> j = (3::nat)"
  by arith

lemma ex_unit_lowest:
  "lowest 1 ({..<length ex_unit_rows} - {0}) (\<lambda>j. euclidean (ex_unit_rows ! 0) (ex_unit_rows ! j)) {1}"
  "lowest 1 ({..<length ex_unit_rows} - {1}) (\<lambda>j. euclidean (ex_unit_rows ! 1) (ex_unit_rows ! j)) {2}"
  "lowest 1 ({..<length ex_unit_rows} - {2}) (\<lambda>j. euclidean (ex_unit_rows ! 2) (ex_unit_rows ! j)) {3}"
proof -
  show "lowest 1 ({..<length ex_unit_rows} - {0})
      (\<lambda>j. euclidean (ex_unit_rows ! 0) (ex_unit_rows ! j)) {1}"
  proof (rule lowest_singleton)
    fix j' assume "j' \<in> {..<length ex_unit_rows} - {0}" "j' \<noteq> 1"
    then have "j' = 2 \<or> j' = 3" using less_4_cases[of j'] by (auto simp: ex_unit_nth)
    then show "euclidean (ex_unit_rows ! 0) (ex_unit_rows ! 1)
        \<le> euclidean (ex_unit_rows ! 0) (ex_unit_rows ! j')"
      by (auto simp: ex_unit_nth ex_unit_distances)
  qed (simp add: ex_unit_nth)
  show "lowest 1 ({..<length ex_unit_rows} - {1})
      (\<lambda>j. euclidean (ex_unit_rows ! 1) (ex_unit_rows ! j)) {2}"
  proof (rule lowest_singleton)
    fix j' assume "j' \<in> {..<length ex_unit_rows} - {1}" "j' \<noteq> 2"
    then have "j' = 0 \<or> j' = 3" using less_4_cases[of j'] by (auto simp: ex_unit_nth)
    then show "euclidean (ex_unit_rows ! 1) (ex_unit_rows ! 2)
        \<le> euclidean (ex_unit_rows ! 1) (ex_unit_rows ! j')"
      by (auto simp: ex_unit_nth ex_unit_distances)
  qed (simp add: ex_unit_nth)
  show "lowest 1 ({..<length ex_unit_rows} - {2})
      (\<lambda>j. euclidean (ex_unit_rows ! 2) (ex_unit_rows ! j)) {3}"
  proof (rule lowest_singleton)
    fix j' assume "j' \<in> {..<length ex_unit_rows} - {2}" "j' \<noteq> 3"
    then have "j' = 0 \<or> j' = 1" using less_4_cases[of j'] by (auto simp: ex_unit_nth)
    then show "euclidean (ex_unit_rows ! 2) (ex_unit_rows ! 3)
        \<le> euclidean (ex_unit_rows ! 2) (ex_unit_rows ! j')"
      by (auto simp: ex_unit_nth ex_unit_distances)
  qed (simp add: ex_unit_nth)
qed

lemma ex_n_neighbors_edge:
  "n_neighbors_of (1/2) 2 1 = Inr 1" "n_neighbors_of (1/4) 2 1 = Inr 0"
  "n_neighbors_of (1/2) 4 2 = Inr 1"
  by (simp_all add: n_neighbors_of_def float64_1 float64_2 float64_half int_trunc_def)

lemma ex_n_neighbors_rounded: "n_neighbors_of (5404319552844595 / 2^54) 100 1 = Inr 30"
  using float64_three_tenths float64_30
  by (simp add: n_neighbors_of_def int_trunc_def)

lemma ex_floor_exact: "\<lfloor>5404319552844595 / 2^54 * real 100 / real 1\<rfloor> = 29"
  by (simp add: floor_eq_iff)

section \<open>The stages of the consensus, case by case\<close>

lemma chunk_loop_error_aux:
  assumes "chunk_loop p X W WWT idx H = Some y"
  shows "\<forall>e. y = Inl e \<longrightarrow> e = NonFinite"
  using assms
proof (rule chunk_loop.raw_induct[where P = "\<lambda>p X W WWT idx H y. \<forall>e. y = Inl e \<longrightarrow> e = NonFinite",
      rotated 1])
  fix cl p X W WWT idx H y
  assume IH: "\<And>p X W WWT idx H y. cl p X W WWT idx H = Some y \<Longrightarrow> \<forall>e. y = Inl e \<longrightarrow> e = NonFinite"
    and body: "(if idx < length X
      then case mu_chunk p W WWT (take (chunk_size p) (drop idx X))
                 (take (chunk_size p) (drop idx H)) of
           None \<Rightarrow> Some (Inl NonFinite)
           | Some h \<Rightarrow> cl p X W WWT (idx + chunk_size p)
                (take idx H @ h @ drop (idx + chunk_size p) H)
      else Some (Inr H)) = Some y"
  show "\<forall>e. y = Inl e \<longrightarrow> e = NonFinite"
  proof (cases "idx < length X")
    case False with body show ?thesis by auto
  next
    case True
    show ?thesis
    proof (cases "mu_chunk p W WWT (take (chunk_size p) (drop idx X)) (take (chunk_size p) (drop idx H))")
      case None with body True show ?thesis by auto
    next
      case (Some h)
      with body True have "cl p X W WWT (idx + chunk_size p)
                (take idx H @ h @ drop (idx + chunk_size p) H) = Some y" by simp
      from IH[OF this] show ?thesis .
    qed
  qed
qed

lemma fit_H_online_error: "fit_H_online X W H_init rnd p = Some (Inl e) \<Longrightarrow> e = NonFinite"
  using chunk_loop_error_aux by (fastforce simp: fit_H_online_def Let_def)

lemma refit_usage_error:
  "refit_usage kw X spectra usage rnd = Some (Inl e) \<Longrightarrow> e = NonFinite \<or> e = BetaLossInvalid"
  by (auto simp: refit_usage_def dest: fit_H_online_error split: if_splits)

lemma after_filter_not_zero:
  "after_filter ext files k thr skip dens l2 \<noteq> Some (Inl ZeroComponentsRemain)"
proof
  assume a: "after_filter ext files k thr skip dens l2 = Some (Inl ZeroComponentsRemain)"
  then obtain L lbs M where L: "those l2 = Some L" and lb: "kmeans_labels ext k L = Some lbs"
    and M: "those (normalize_sum (groupby_median ext (map Suc lbs) L)) = Some M"
    by (auto simp: after_filter_def Let_def split: option.splits)
  let ?r = "refit_usage (nmf_run_parameters files) (norm_counts files) M None (torch_rand ext)"
  show False
  proof (cases ?r)
    case None with a L lb M show False by (simp add: after_filter_def Let_def)
  next
    case (Some y)
    show False
    proof (cases y)
      case (Inl e)
      with Some refit_usage_error[of "nmf_run_parameters files" "norm_counts files" M None
          "torch_rand ext" e]
      have "e \<noteq> ZeroComponentsRemain" by auto
      with a L lb M Some Inl show False by (simp add: after_filter_def Let_def)
    next
      case (Inr U)
      with a L lb M Some show False
        by (auto simp: after_filter_def Let_def split: option.splits if_splits later.splits)
    qed
  qed
qed

lemma compute_local_density_not_zero:
  "compute_local_density nn L \<noteq> Inl ZeroComponentsRemain"
  by (auto simp: compute_local_density_def Let_def)

lemma local_density_stage_not_zero:
  "snd (local_density_stage files nn l2) \<noteq> Inl ZeroComponentsRemain"
  using compute_local_density_not_zero
  by (auto simp: local_density_stage_def split: option.splits sum.splits)

lemma select_rows_empty:
  "length flt = length rows \<Longrightarrow> select_rows flt rows = [] \<longleftrightarrow> (\<forall>b\<in>set flt. \<not> b)"
proof (induction flt arbitrary: rows)
  case Nil then show ?case by (simp add: select_rows_def)
next
  case (Cons b flt)
  then obtain r rs where rows: "rows = r # rs" by (cases rows) auto
  with Cons.prems have "length flt = length rs" by simp
  from Cons.IH[OF this] show ?case by (auto simp: rows select_rows_def)
qed

lemma select_rows_all:
  "length rows = n \<Longrightarrow> select_rows (replicate n True) rows = rows"
proof (induction rows arbitrary: n)
  case Nil then show ?case by (simp add: select_rows_def)
next
  case (Cons r rows)
  then obtain m where n: "n = Suc m" "length rows = m" by (cases n) auto
  from Cons.IH[OF n(2)] show ?case by (simp add: n select_rows_def)
qed

lemma density_filter_none_below:
  "(\<forall>b\<in>set (density_filter thr d). \<not> b) \<longleftrightarrow>
   (\<forall>x\<in>set d. case x of None \<Rightarrow> True | Some v \<Rightarrow> thr \<le> v)"
  by (auto simp: density_filter_def split: option.splits)

lemma density_filter_all_below:
  "\<forall>x\<in>set d. \<exists>v. x = Some v \<and> v < thr \<Longrightarrow> density_filter thr d = replicate (length d) True"
  by (induction d) (auto simp: density_filter_def)

lemma length_l2_normalize: "length (l2_normalize M) = length M"
  by (simp add: l2_normalize_def)

lemma length_density_filter: "length (density_filter thr d) = length d"
  by (simp add: density_filter_def)

lemma filter_stage_skip:
  "n_neighbors_of lns (length (merged_spectra files)) k = Inr nn \<Longrightarrow>
   filter_stage files k thr lns True = (None, Inr (l2_normalize (merged_spectra files), None))"
  by (simp add: filter_stage_def)

lemma filter_stage_div0:
  "n_neighbors_of lns (length (merged_spectra files)) k = Inl e \<Longrightarrow>
   filter_stage files k thr lns skip = (None, Inl e)"
  by (simp add: filter_stage_def)

lemma filter_stage_density_error:
  "n_neighbors_of lns (length (merged_spectra files)) k = Inr nn \<Longrightarrow>
   local_density_stage files nn (l2_normalize (merged_spectra files)) = (w, Inl e) \<Longrightarrow>
   filter_stage files k thr lns False = (w, Inl e)"
  by (simp add: filter_stage_def)

lemma filter_stage_density:
  "n_neighbors_of lns (length (merged_spectra files)) k = Inr nn \<Longrightarrow>
   local_density_stage files nn (l2_normalize (merged_spectra files)) = (w, Inr d) \<Longrightarrow>
   filter_stage files k thr lns False =
     (if length d \<noteq> length (merged_spectra files) then (w, Inl UnalignableIndexer)
      else if select_rows (density_filter thr d) (l2_normalize (merged_spectra files)) = []
           then (w, Inl ZeroComponentsRemain)
           else (w, Inr (select_rows (density_filter thr d) (l2_normalize (merged_spectra files)),
                         Some (d, density_filter thr d))))"
  by (simp add: filter_stage_def Let_def length_l2_normalize)

lemma n_neighbors_error:
  "n_neighbors_of lns n k = Inl e \<Longrightarrow> e = ZeroDivision \<or> e = FloatOverflow"
  by (auto simp: n_neighbors_of_def split: if_splits option.splits)

lemma ex_l2: "l2_normalize ex_spectra = [Some [1, 0], Some [1, 0], Some [0, 1], Some [0, 1]]"
  by (simp add: l2_normalize_def ex_spectra_def fdiv_def)

lemma ex_n_neighbors: "n_neighbors_of (1/2) (length ex_spectra) 2 = Inr 1"
  by (simp add: n_neighbors_of_def float64_1 float64_2 int_trunc_def ex_spectra_def)

lemma ex_distances:
  "euclidean_distances ex_spectra =
     [[0, 0, sqrt 2, sqrt 2], [0, 0, sqrt 2, sqrt 2], [sqrt 2, sqrt 2, 0, 0], [sqrt 2, sqrt 2, 0, 0]]"
  by (simp add: euclidean_distances_def euclidean_def ex_spectra_def)

lemma ex_density: "compute_local_density 1 ex_spectra = Inr [Some 0, Some 0, Some 0, Some 0]"
  unfolding compute_local_density_def Let_def ex_distances
  by (simp add: ex_spectra_def smallest_def fdiv_def numeral_2_eq_2)

lemma ex_density_stage:
  "local_density_stage ex_files 1 (l2_normalize ex_spectra) =
     (Some [Some 0, Some 0, Some 0, Some 0], Inr [Some 0, Some 0, Some 0, Some 0])"
  unfolding ex_l2 by (simp add: local_density_stage_def ex_files_def ex_density[unfolded ex_spectra_def])

lemma ex_fields_files:
  "merged_spectra ex_files = ex_spectra" "local_density_cache ex_files = None"
  "norm_counts ex_files = [[1, 0], [0, 1]]"
  "nmf_run_parameters ex_files = \<lparr>beta_loss = Frobenius, online_chunk_size = 5000,
       online_chunk_max_iter = 200, l1_ratio_H = 0\<rparr>"
  by (simp_all add: ex_files_def)

section \<open>The statistics-only mode\<close>


lemma filter_stage_skip_fst: "fst (filter_stage files k thr lns True) = None"
  by (simp add: filter_stage_def Let_def split: sum.splits)

lemma filter_stage_skip_cache:
  "filter_stage (files\<lparr>local_density_cache := cache\<rparr>) k thr lns True = filter_stage files k thr lns True"
  by (simp add: filter_stage_def Let_def split: sum.splits)





section \<open>float32: special values, signs and shapes\<close>

lemma fadd_NaN [simp]: "fadd rd a NaN = NaN" "fadd rd NaN a = NaN"
  by (cases a; simp)+

lemma fmul_NaN [simp]: "fmul rd a NaN = NaN" "fmul rd NaN a = NaN"
  by (cases a; simp)+

lemma fdivide_NaN [simp]: "fdivide rd a NaN = NaN" "fdivide rd NaN a = NaN"
  by (cases a; simp)+

lemma fless_NaN [simp]: "fless a NaN = False" "fless NaN a = False"
  by (cases a; simp)+

lemma fless_PInf [simp]: "fless PInf a = False"
  by (cases a; simp)

lemma fadd_PInf [simp]: "fadd rd (Fin x) PInf = PInf" "fadd rd PInf (Fin x) = PInf"
  by simp_all

lemma f32_max_bounds: "(10::real)^20 \<le> f32_max" "f32_max < (10::real)^40"
  by (simp_all add: f32_max_def)

lemma to_f32_exact: "- f32_max \<le> x \<Longrightarrow> x \<le> f32_max \<Longrightarrow> to_f32 (\<lambda>x. x) x = Fin x"
  by (simp add: to_f32_def)

lemma to_f32_over: "f32_max < x \<Longrightarrow> to_f32 (\<lambda>x. x) x = PInf"
  by (simp add: to_f32_def)

lemma ex_to_f32:
  "to_f32 (\<lambda>x. x) 0 = Fin 0" "to_f32 (\<lambda>x. x) 1 = Fin 1" "to_f32 (\<lambda>x. x) (10^20) = Fin (10^20)"
  "to_f32 (\<lambda>x. x) (10^20 * 10^20) = PInf"
  "to_f32 (\<lambda>x. x) (epsilon default_params) = Fin (1/10^16)"
  using f32_max_bounds
  by (simp_all add: to_f32_exact to_f32_over default_params_def)
















lemma nn_simps [simp]:
  "not_negative (Fin x) \<longleftrightarrow> 0 \<le> x" "not_negative PInf" "\<not> not_negative NInf" "not_negative NaN"
  by (simp_all add: not_negative_def fge0_def)








































lemma zn_simps [simp]: "zero_or_nan (Fin x) \<longleftrightarrow> x = 0" "\<not> zero_or_nan PInf" "\<not> zero_or_nan NInf"
  "zero_or_nan NaN"
  by (simp_all add: zero_or_nan_def)











section \<open>Claims about fit\_H\_online\<close>




text \<open>
  C5: in an inner iteration on the chunk state \<open>h\<close>, an entry whose denominator (\<open>h W W\<^sup>T\<close>
  plus the optional L2 term) is below \<open>epsilon\<close> gets the update ratio zero, and its new value
  \<open>h * rates\<close> is zero: both are finite numbers, neither inf nor nan, and the entry is zero in
  the \<open>h_new\<close> the iteration goes on with.
\<close>

theorem mu_floor_ratio_zero:
  assumes "has_shape c k h" and "has_shape c k numer" and "has_shape k k WWT"
    and "i < c" and "j < k"
    and "mu_denom p WWT h ! i ! j < epsilon p"
  shows "mu_rates p numer (mu_denom p WWT h) ! i ! j = Some 0 \<and>
         mu_h_new h (mu_rates p numer (mu_denom p WWT h)) ! i ! j = Some 0 \<and>
         (\<forall>h'. mu_step p WWT numer h = Some h' \<longrightarrow> h' ! i ! j = 0)"
proof (intro conjI allI impI)
  show "mu_rates p numer (mu_denom p WWT h) ! i ! j = Some 0"
    by (rule mu_floor_entry(1)[OF assms])
  show "mu_h_new h (mu_rates p numer (mu_denom p WWT h)) ! i ! j = Some 0"
    by (rule mu_floor_entry(2)[OF assms])
  fix h' assume step: "mu_step p WWT numer h = Some h'"
  have "has_shape c k h'" by (rule mu_step_Some_shape[OF step assms(3,2,1)])
  then have l: "i < length h'" "j < length (h' ! i)"
    using assms(4,5) by (simp_all add: has_shape_iff)
  have "mu_denom p WWT h ! i = denom_row p WWT (h ! i)"
    using assms(1,4) by (intro mu_denom_nth) (simp add: has_shape_iff)
  with assms(6) have "denom_row p WWT (h ! i) ! j < epsilon p" by simp
  from mu_step_Some_entry(2)[OF step l] entry_update_floor[OF this]
  show "h' ! i ! j = 0" by simp
qed

theorem mu_floor_ratio_zero_witness:
  "mu_denom default_params [[2, 1], [1, 1]] [[0, 0], [1, 1]] ! 0 ! 0 = 0 \<and>
   mu_rates default_params [[1, 0], [1, 0]]
     (mu_denom default_params [[2, 1], [1, 1]] [[0, 0], [1, 1]]) ! 0 ! 0 = Some 0 \<and>
   mu_h_new [[0, 0], [1, 1]]
     (mu_rates default_params [[1, 0], [1, 0]]
       (mu_denom default_params [[2, 1], [1, 1]] [[0, 0], [1, 1]])) ! 0 ! 0 = Some 0"
proof -
  have d: "mu_denom default_params [[2, 1], [1, 1]] [[0, 0], [1, 1]] ! 0 ! 0 = 0"
    by (simp add: mu_denom_def matmul_def dot_def default_params_def)
  have "mu_denom default_params [[2, 1], [1, 1]] [[0, 0], [1, 1]] ! 0 ! 0 < epsilon default_params"
    unfolding d by (simp add: default_params_def)
  from mu_floor_ratio_zero[where c = 2 and k = 2 and i = 0 and j = 0 and numer = "[[1, 0], [1, 0]]",
      OF _ _ _ _ _ this]
  have "mu_rates default_params [[1, 0], [1, 0]]
     (mu_denom default_params [[2, 1], [1, 1]] [[0, 0], [1, 1]]) ! 0 ! 0 = Some 0 \<and>
   mu_h_new [[0, 0], [1, 1]]
     (mu_rates default_params [[1, 0], [1, 0]]
       (mu_denom default_params [[2, 1], [1, 1]] [[0, 0], [1, 1]])) ! 0 ! 0 = Some 0"
    by (simp add: has_shape_def)
  with d show ?thesis by simp
qed




text \<open>
  C6 as stated fails: the stopping test \<^verbatim>\<open>rel < h_tol\<close> is computed over the whole chunk, so
  the number of updates a row receives depends on the rows it shares a chunk with. With the
  default parameters, the two rows below processed as one chunk stop after one update; processed
  one row per chunk, the first row is updated three times.
\<close>

theorem chunk_size_changes_result:
  "fit_H_online [[1, 0], [0, 30]] [[1, 1], [0, 1]] (Some [[1, 1], [0, 30]]) []
      (default_params\<lparr>chunk_size := 2\<rparr>) = Some (Inr [[1/3, 0], [0, 30]]) \<and>
   fit_H_online [[1, 0], [0, 30]] [[1, 1], [0, 1]] (Some [[1, 1], [0, 30]]) []
      (default_params\<lparr>chunk_size := 1\<rparr>) = Some (Inr [[1/2, 0], [0, 30]])"
proof
  let ?X = "[[1, 0], [0, 30 :: real]]" and ?W = "[[1, 1], [0, 1 :: real]]"
  have i: "init_H (Some [[1, 1], [0, 30]]) [] = [[1, 1], [0, 30]]"
    by (simp add: init_H_def clamp_min0_def)
  have w: "matmul_T ?W ?W = [[2, 1], [1, 1]]" by (simp add: matmul_T_def dot_def)
  show "fit_H_online ?X ?W (Some [[1, 1], [0, 30]]) [] (default_params\<lparr>chunk_size := 2\<rparr>)
      = Some (Inr [[1/3, 0], [0, 30]])"
    unfolding fit_H_online_def Let_def i w
    by (subst chunk_loop.simps, simp add: ex_fields ex_whole_chunk, subst chunk_loop.simps, simp)
  show "fit_H_online ?X ?W (Some [[1, 1], [0, 30]]) [] (default_params\<lparr>chunk_size := 1\<rparr>)
      = Some (Inr [[1/2, 0], [0, 30]])"
    unfolding fit_H_online_def Let_def i w
    by (subst chunk_loop.simps, simp add: ex_fields ex_first_row, subst chunk_loop.simps,
        simp add: ex_fields ex_second_row, subst chunk_loop.simps, simp)
qed

text \<open>
  C6, amended: with \<open>epsilon > 0\<close> and \<open>chunk_size \<ge> 1\<close> the refit returns an \<open>H\<close> whose rows
  of each chunk are the result of the inner loop on that chunk's rows of \<open>X\<close> and of the initial
  \<open>H\<close> alone (chunks do not influence one another, so their order is immaterial); and when the
  stopping test cannot fire (\<open>h_tol \<le> 0\<close>), every \<open>chunk_size \<ge> 1\<close> returns this same \<open>H\<close>.
\<close>

theorem chunks_independent:
  assumes "0 < epsilon p" and "0 < chunk_size p" and "length (init_H H_init rnd) = length X"
  shows "\<exists>H. fit_H_online X W H_init rnd p = Some (Inr H) \<and>
           (\<forall>q. q * chunk_size p < length X \<longrightarrow>
              mu_chunk p W (matmul_T W W)
                 (take (chunk_size p) (drop (q * chunk_size p) X))
                 (take (chunk_size p) (drop (q * chunk_size p) (init_H H_init rnd)))
               = Some (take (chunk_size p) (drop (q * chunk_size p) H))) \<and>
           (h_tol p \<le> 0 \<longrightarrow>
              (\<forall>c. 0 < c \<longrightarrow> fit_H_online X W H_init rnd (p\<lparr>chunk_size := c\<rparr>) = Some (Inr H)))"
proof -
  let ?WWT = "matmul_T W W" and ?Hs = "init_H H_init rnd"
  let ?H = "chunks_fin p W ?WWT X ?Hs"
  have run: "fit_H_online X W H_init rnd p = Some (Inr ?H)"
    using chunk_loop_fin[OF assms(1,2) assms(3), of W ?WWT 0] by (simp add: fit_H_online_def)
  have slice: "mu_chunk p W ?WWT (take (chunk_size p) (drop (q * chunk_size p) X))
                 (take (chunk_size p) (drop (q * chunk_size p) ?Hs))
               = Some (take (chunk_size p) (drop (q * chunk_size p) ?H))"
    if "q * chunk_size p < length X" for q
  proof -
    have "take (chunk_size p) (drop (q * chunk_size p) ?H) =
        chunk_fin p W ?WWT (take (chunk_size p) (drop (q * chunk_size p) X))
          (take (chunk_size p) (drop (q * chunk_size p) ?Hs))"
      by (rule chunks_fin_slice[OF assms(2) assms(3)[symmetric] that])
    then show ?thesis by (simp only: mu_chunk_fin[OF assms(1)])
  qed
  have other: "fit_H_online X W H_init rnd (p\<lparr>chunk_size := c\<rparr>) = Some (Inr ?H)"
    if tol: "h_tol p \<le> 0" and c: "0 < c" for c
  proof -
    let ?p = "p\<lparr>chunk_size := c\<rparr>"
    have e: "0 < epsilon ?p" "h_tol ?p \<le> 0" "0 < chunk_size ?p" using assms(1) tol c by simp_all
    have "fit_H_online X W H_init rnd ?p = Some (Inr (chunks_fin ?p W ?WWT X ?Hs))"
      using chunk_loop_fin[OF e(1,3) assms(3), of W ?WWT 0] by (simp add: fit_H_online_def)
    also have "chunks_fin ?p W ?WWT X ?Hs = map2 (row_fit p W ?WWT) X ?Hs"
      using chunks_fin_rows[OF e assms(3)[symmetric], of W ?WWT] by (simp add: row_fit_chunk_size)
    also have "\<dots> = ?H"
      using chunks_fin_rows[OF assms(1) tol assms(2) assms(3)[symmetric], of W ?WWT] by simp
    finally show ?thesis .
  qed
  from run slice other show ?thesis by blast
qed

theorem chunks_independent_witness:
  "\<exists>H. fit_H_online [[1, 0], [0, 30]] [[1, 1], [0, 1]] (Some [[1, 1], [0, 30]]) []
          (default_params\<lparr>h_tol := 0, chunk_size := 1\<rparr>) = Some (Inr H) \<and>
       fit_H_online [[1, 0], [0, 30]] [[1, 1], [0, 1]] (Some [[1, 1], [0, 30]]) []
          (default_params\<lparr>h_tol := 0, chunk_size := 2\<rparr>) = Some (Inr H)"
proof -
  let ?p = "default_params\<lparr>h_tol := 0, chunk_size := 1\<rparr>"
  have "0 < epsilon ?p" "0 < chunk_size ?p" "h_tol ?p \<le> 0"
    "length (init_H (Some [[1, 1], [0, 30]]) []) = length [[1, 0], [0, 30 :: real]]"
    by (simp_all add: default_params_def init_H_def clamp_min0_def)
  from chunks_independent[OF this(1,2,4), of "[[1, 1], [0, 1]]"] this(3)
  obtain H where "fit_H_online [[1, 0], [0, 30]] [[1, 1], [0, 1]] (Some [[1, 1], [0, 30]]) [] ?p
        = Some (Inr H)"
    and "\<forall>c. 0 < c \<longrightarrow> fit_H_online [[1, 0], [0, 30]] [[1, 1], [0, 1]] (Some [[1, 1], [0, 30]]) []
        (?p\<lparr>chunk_size := c\<rparr>) = Some (Inr H)"
    by blast
  from this(1) this(2)[rule_format, of 2] show ?thesis by (intro exI[of _ H]) simp
qed

text \<open>
  C8 as stated fails: the floor itself can raise the error. With the default parameters and
  the one-entry basis \<open>W = 1/10^9\<close>, the entry \<open>h = 1/2\<close> has the denominator \<open>h W W\<^sup>T = 5/10^19\<close>,
  below \<open>epsilon = 1/10^16\<close>; the update sets it to zero, and the error for \<open>x = 1/10^9\<close> doubles.
\<close>

theorem floor_increases_error:
  "mu_step default_params (matmul_T [[1/10^9]] [[1/10^9]])
      (mu_numer default_params [[1/10^9]] [[1/10^9]]) [[1/2]] = Some [[0]] \<and>
   recon_error [[1/10^9]] [[1/2]] [[1/10^9]] = 1 / (2 * 10^9) \<and>
   recon_error [[1/10^9]] [[0]] [[1/10^9]] = 1 / 10^9 \<and>
   recon_error [[1/10^9]] [[1/2]] [[1/10^9]] < recon_error [[1/10^9]] [[0]] [[1/10^9]]"
  using ex_floor_step ex_floor_before ex_floor_after by simp

text \<open>
  C8, amended: without regularisation (\<open>l1_reg_H \<le> 0\<close> and \<open>l2_reg_H \<le> 0\<close>, so that numerator
  and denominator are \<open>x W\<^sup>T\<close> and \<open>h W W\<^sup>T\<close>), with \<open>epsilon > 0\<close>, and in an iteration where no
  positive entry of \<open>h\<close> has its denominator below \<open>epsilon\<close>, the update returns a non-negative
  \<open>h'\<close> of the same shape whose reconstruction error is at most that of \<open>h\<close>.
\<close>

theorem mu_step_error_nonincreasing:
  assumes "0 < epsilon p" and "l1_reg_H p \<le> 0" and "l2_reg_H p \<le> 0"
    and "0 < k" and "has_shape k f W" and "nonneg W"
    and "has_shape c f x" and "nonneg x" and "has_shape c k h" and "nonneg h"
    and "\<forall>i<c. \<forall>j<k. 0 < h ! i ! j \<longrightarrow> epsilon p \<le> mu_denom p (matmul_T W W) h ! i ! j"
  shows "\<exists>h'. mu_step p (matmul_T W W) (mu_numer p W x) h = Some h' \<and>
           has_shape c k h' \<and> nonneg h' \<and> recon_error x h' W \<le> recon_error x h W"
proof -
  let ?WWT = "matmul_T W W" and ?n = "mu_numer p W x"
  let ?h = "step_fin p ?WWT ?n h"
  have step: "mu_step p ?WWT ?n h = Some ?h" by (rule mu_step_fin[OF assms(1)])
  have sW: "has_shape k k ?WWT"
    using assms(5) by (intro has_shape_matmul_T) (simp_all add: has_shape_iff)
  have sn: "has_shape c k ?n"
    using assms(5,7) by (intro has_shape_mu_numer) (simp_all add: has_shape_iff)
  have "has_shape c k ?h" by (rule has_shape_step_fin[OF sW sn assms(9)])
  moreover have "nonneg ?h"
    by (intro nonneg_step_fin assms(1,10) nonneg_mu_numer assms(8) assms(6))
  moreover have "recon_error x ?h W \<le> recon_error x h W"
    by (rule mu_step_descent[OF assms(5,6,4,7,9,10,2,3) step assms(11)])
  ultimately show ?thesis using step by blast
qed

theorem mu_step_error_nonincreasing_witness:
  "\<exists>h'. mu_step default_params (matmul_T [[1, 1], [0, 1]] [[1, 1], [0, 1]])
          (mu_numer default_params [[1, 1], [0, 1]] [[1, 0]]) [[1, 1]] = Some h' \<and>
        has_shape 1 2 h' \<and> nonneg h' \<and>
        recon_error [[1, 0]] h' [[1, 1], [0, 1]] \<le> recon_error [[1, 0]] [[1, 1]] [[1, 1], [0, 1]]"
proof -
  have d: "mu_denom default_params (matmul_T [[1, 1], [0, 1]] [[1, 1], [0, 1]]) [[1, 1]] = [[3, 2]]"
    by (simp add: mu_denom_def matmul_T_def matmul_def dot_def default_params_def)
  have keep: "\<forall>i<1. \<forall>j<2. 0 < [[1, 1 :: real]] ! i ! j \<longrightarrow>
      epsilon default_params \<le>
        mu_denom default_params (matmul_T [[1, 1], [0, 1]] [[1, 1], [0, 1]]) [[1, 1]] ! i ! j"
    unfolding d by (simp add: default_params_def less_Suc_eq numeral_2_eq_2)
  show ?thesis
    by (rule mu_step_error_nonincreasing[where k = 2 and f = 2 and c = 1, OF _ _ _ _ _ _ _ _ _ _ keep])
       (simp_all add: default_params_def has_shape_def nonneg_def)
qed

section \<open>Claims about efficient\_ols\_all\_cols\<close>

text \<open>
  C7: for \<open>X\<close> (\<open>n \<times> p\<close>) and \<open>Y\<close> (\<open>n \<times> t\<close>) with \<open>n \<ge> 1\<close> rows and every \<open>batch_size \<ge> 1\<close>, the
  accumulated sums are \<open>XtX = X\<^sup>T X\<close> (\<open>p \<times> p\<close>) and \<open>XtY = X\<^sup>T Y\<close> (\<open>p \<times> t\<close>, a column for each of
  the \<open>t\<close> targets, \<open>Y\<close> normalised when \<open>normalize_y\<close> is set), and the solver returns
  \<open>lstsq XtX XtY\<close>: neither depends on \<open>batch_size\<close>. With \<open>normalize_y\<close> the scaler is assumed to
  return one mean and one variance per column of \<open>Y\<close>.
\<close>

theorem ols_batch_size_independent:
  assumes "has_shape n p X" and "has_shape n t Y" and "0 < n"
    and "normalize_y \<longrightarrow> length (fst (scaler Y)) = t \<and> length (snd (scaler Y)) = t"
    and "XtX = matmul (transpose X) X"
    and "XtY = matmul (transpose X) (ols_targets (ols_scaling scaler Y normalize_y) Y)"
  shows "has_shape p p XtX \<and> has_shape p t XtY \<and>
         (\<forall>b\<ge>1. efficient_ols_all_cols scaler lstsq X Y b normalize_y = Inr (lstsq XtX XtY))"
proof -
  let ?Y = "ols_targets (ols_scaling scaler Y normalize_y) Y"
  have sY: "has_shape n t ?Y"
    by (rule ols_closed_form(2)[where b = 1 and scaler = scaler, OF assms(1,2,3) _ assms(4)]) simp
  have "has_shape p p XtX" "has_shape p t XtY"
    unfolding assms(5,6) matmul_transpose_gram[OF assms(1) assms(1) assms(3)]
      matmul_transpose_gram[OF assms(1) sY assms(3)]
    by (rule has_shape_gram)+
  moreover have "\<forall>b\<ge>1. efficient_ols_all_cols scaler lstsq X Y b normalize_y =
      Inr (lstsq XtX XtY)"
    unfolding assms(5,6)
    using ols_closed_form(1)[where scaler = scaler, OF assms(1,2,3) _ assms(4)] by blast
  ultimately show ?thesis by blast
qed

theorem ols_batch_size_independent_witness:
  "efficient_ols_all_cols (\<lambda>Y. ([], [])) (\<lambda>A B. B) [[1, 0], [1, 1], [1, 2]] [[1], [3], [5]] 1 False
     = Inr [[9], [13]] \<and>
   efficient_ols_all_cols (\<lambda>Y. ([], [])) (\<lambda>A B. B) [[1, 0], [1, 1], [1, 2]] [[1], [3], [5]] 2 False
     = Inr [[9], [13]] \<and>
   efficient_ols_all_cols (\<lambda>Y. ([], [])) (\<lambda>A B. B) [[1, 0], [1, 1], [1, 2]] [[1], [3], [5]] 3 False
     = Inr [[9], [13]]"
proof -
  let ?X = "[[1, 0], [1, 1], [1, 2 :: real]]" and ?Y = "[[1], [3], [5 :: real]]"
  have s: "has_shape 3 2 ?X" "has_shape 3 1 ?Y"
    by (simp_all add: has_shape_def)
  have n: "0 < (3::nat)" by simp
  have y: "matmul (transpose ?X) (ols_targets (ols_scaling (\<lambda>Y. ([], [])) ?Y False) ?Y) = [[9], [13]]"
    by (simp add: ols_scaling_def ols_targets_def matmul_def dot_def)
  from ols_batch_size_independent[where scaler = "\<lambda>Y. ([], [])" and lstsq = "\<lambda>A B. B"
      and normalize_y = False and XtX = "matmul (transpose ?X) ?X" and XtY = "[[9], [13]]",
      OF s n _ refl y[symmetric]]
  have "\<forall>b\<ge>1. efficient_ols_all_cols (\<lambda>Y. ([], [])) (\<lambda>A B. B) ?X ?Y b False = Inr [[9], [13]]"
    by simp
  from this[rule_format, of 1] this[rule_format, of 2] this[rule_format, of 3]
  show ?thesis by simp
qed

section \<open>Claims about the consensus pipeline\<close>

text \<open>
  C9 as stated fails outside a range of \<open>n\<close>, and \<open>n\<close> is not always the floor of the exact
  quotient. With two rows, \<open>k = 1\<close> and \<open>local_neighborhood_size = 1/2\<close> the code computes
  \<open>n = 1\<close> and numpy rejects the partition index \<open>n + 1 = 2\<close>, although each row has one other
  row; with \<open>local_neighborhood_size = 1/4\<close> it computes \<open>n = 0\<close> and every density is \<open>0/0\<close>, nan.
  With 100 rows, \<open>k = 1\<close> and the double nearest to 0.3 the float product rounds up to 30, so
  the code uses \<open>n = 30\<close>, while the floor of the exact product is 29.
\<close>

theorem local_density_outside_range:
  "n_neighbors_of (1/2) 2 1 = Inr 1 \<and>
   compute_local_density 1 [[1, 0], [0, 1]] = Inl KthOutOfBounds \<and>
   n_neighbors_of (1/4) 2 1 = Inr 0 \<and>
   compute_local_density 0 [[1, 0], [0, 1]] = Inr [None, None] \<and>
   n_neighbors_of (5404319552844595 / 2^54) 100 1 = Inr 30 \<and>
   \<lfloor>5404319552844595 / 2^54 * real 100 / real 1\<rfloor> = 29"
  using ex_n_neighbors_edge(1,2) ex_n_neighbors_rounded ex_floor_exact
  by (simp add: compute_local_density_def Let_def fdiv_def euclidean_distances_def)

text \<open>
  C9, amended: let \<open>n\<close> be the number the code computes, \<^verbatim>\<open>int\<close> of the float quotient of the
  float product (the floor of that quotient), and let \<open>1 \<le> n\<close> and \<open>n + 1 < num_rows\<close>. Then
  the density of every row \<open>i\<close> is computed, and it is the mean distance from row \<open>i\<close> to its
  \<open>n\<close> nearest other rows: there are \<open>n\<close> other rows at least as near as all the rest, and
  for any such choice the density is the sum of their distances divided by \<open>n\<close>. It is also the
  sum of any \<open>n + 1\<close> smallest entries of row \<open>i\<close> of the distance matrix divided by \<open>n\<close>.
\<close>

theorem local_density_mean_nearest:
  assumes "n_neighbors_of local_neighborhood_size (length L) k = Inr (int n)"
    and "1 \<le> n" and "n + 1 < length L"
  shows "(\<exists>p q. float64 (local_neighborhood_size * real (length L)) = Some p \<and>
                float64 (p / real k) = Some q \<and> int n = \<lfloor>q\<rfloor>) \<and>
         (\<exists>d. compute_local_density (int n) L = Inr d \<and> length d = length L \<and>
            (\<forall>i<length L.
               (\<exists>S. lowest n ({..<length L} - {i}) (\<lambda>j. euclidean (L ! i) (L ! j)) S) \<and>
               (\<forall>S. lowest n ({..<length L} - {i}) (\<lambda>j. euclidean (L ! i) (L ! j)) S \<longrightarrow>
                    d ! i = Some ((\<Sum>j\<in>S. euclidean (L ! i) (L ! j)) / real n)) \<and>
               (\<forall>T. lowest (n + 1) {..<length L} (\<lambda>j. euclidean_distances L ! i ! j) T \<longrightarrow>
                    d ! i = Some ((\<Sum>j\<in>T. euclidean_distances L ! i ! j) / real n))))"
proof (rule conjI)
  from assms(1) obtain p q where p: "float64 (local_neighborhood_size * real (length L)) = Some p"
    and q: "float64 (p / real k) = Some q" and t: "int_trunc q = int n"
    by (auto simp: n_neighbors_of_def split: if_splits option.splits)
  have "0 \<le> q"
  proof (rule ccontr)
    assume "\<not> 0 \<le> q"
    then have "int_trunc q \<le> 0" by (simp add: int_trunc_def)
    with t assms(2) show False by simp
  qed
  with t have "int n = \<lfloor>q\<rfloor>" by (simp add: int_trunc_def)
  with p q show "\<exists>p q. float64 (local_neighborhood_size * real (length L)) = Some p \<and>
                float64 (p / real k) = Some q \<and> int n = \<lfloor>q\<rfloor>" by blast
next
  let ?d = "map (\<lambda>row. Some (sum_list (smallest (Suc n) row) / real n)) (euclidean_distances L)"
  have len: "length (euclidean_distances L) = length L" by (simp add: euclidean_distances_def)
  have cd: "compute_local_density (int n) L = Inr ?d"
    using assms(2,3) by (auto simp: compute_local_density_def Let_def fdiv_def nat_add_distrib)
  have row: "?d ! i = Some (sum_list (smallest (Suc n) (euclidean_distances L ! i)) / real n)"
    if "i < length L" for i using that len by simp
  have "(\<exists>S. lowest n ({..<length L} - {i}) (\<lambda>j. euclidean (L ! i) (L ! j)) S) \<and>
        (\<forall>S. lowest n ({..<length L} - {i}) (\<lambda>j. euclidean (L ! i) (L ! j)) S \<longrightarrow>
             ?d ! i = Some ((\<Sum>j\<in>S. euclidean (L ! i) (L ! j)) / real n)) \<and>
        (\<forall>T. lowest (n + 1) {..<length L} (\<lambda>j. euclidean_distances L ! i ! j) T \<longrightarrow>
             ?d ! i = Some ((\<Sum>j\<in>T. euclidean_distances L ! i ! j) / real n))"
    if i: "i < length L" for i
  proof (intro conjI allI impI)
    have "card ({..<length L} - {i}) = length L - 1" using i by simp
    with assms(3) have "n \<le> card ({..<length L} - {i})" by simp
    then show "\<exists>S. lowest n ({..<length L} - {i}) (\<lambda>j. euclidean (L ! i) (L ! j)) S"
      by (intro ex_lowest) simp
  next
    fix S assume "lowest n ({..<length L} - {i}) (\<lambda>j. euclidean (L ! i) (L ! j)) S"
    from density_row_lowest[OF i this] row[OF i]
    show "?d ! i = Some ((\<Sum>j\<in>S. euclidean (L ! i) (L ! j)) / real n)" by simp
  next
    fix T assume T: "lowest (n + 1) {..<length L} (\<lambda>j. euclidean_distances L ! i ! j) T"
    have l: "length (euclidean_distances L ! i) = length L"
      using i by (simp add: distances_row)
    from T have "lowest (Suc n) {..<length (euclidean_distances L ! i)}
        (\<lambda>j. euclidean_distances L ! i ! j) T" by (simp add: l)
    from sum_smallest_lowest[OF this] row[OF i]
    show "?d ! i = Some ((\<Sum>j\<in>T. euclidean_distances L ! i ! j) / real n)" by simp
  qed
  with cd len show "\<exists>d. compute_local_density (int n) L = Inr d \<and> length d = length L \<and>
            (\<forall>i<length L.
               (\<exists>S. lowest n ({..<length L} - {i}) (\<lambda>j. euclidean (L ! i) (L ! j)) S) \<and>
               (\<forall>S. lowest n ({..<length L} - {i}) (\<lambda>j. euclidean (L ! i) (L ! j)) S \<longrightarrow>
                    d ! i = Some ((\<Sum>j\<in>S. euclidean (L ! i) (L ! j)) / real n)) \<and>
               (\<forall>T. lowest (n + 1) {..<length L} (\<lambda>j. euclidean_distances L ! i ! j) T \<longrightarrow>
                    d ! i = Some ((\<Sum>j\<in>T. euclidean_distances L ! i ! j) / real n)))"
    by (intro exI[of _ ?d]) simp
qed

theorem local_density_mean_nearest_witness:
  "n_neighbors_of (1/2) (length ex_unit_rows) 2 = Inr 1 \<and>
   (\<exists>d. compute_local_density 1 ex_unit_rows = Inr d \<and>
        d ! 0 = Some (10/13) \<and> d ! 1 = Some (32/65) \<and> d ! 2 = Some 0)"
proof -
  have n: "n_neighbors_of (1/2) (length ex_unit_rows) 2 = Inr (int 1)"
    by (simp add: ex_unit_nth ex_n_neighbors_edge)
  from local_density_mean_nearest[OF n, THEN conjunct2]
  obtain d where d: "compute_local_density (int 1) ex_unit_rows = Inr d"
    and all: "\<forall>i<length ex_unit_rows.
       (\<forall>S. lowest 1 ({..<length ex_unit_rows} - {i})
              (\<lambda>j. euclidean (ex_unit_rows ! i) (ex_unit_rows ! j)) S \<longrightarrow>
            d ! i = Some ((\<Sum>j\<in>S. euclidean (ex_unit_rows ! i) (ex_unit_rows ! j)) / real 1))"
    by (auto simp: ex_unit_nth)
  have "d ! 0 = Some (10/13)"
    using all[rule_format, of 0 "{1}"] ex_unit_lowest(1) by (simp add: ex_unit_nth ex_unit_distances)
  moreover have "d ! 1 = Some (32/65)"
    using all[rule_format, of 1 "{2}"] ex_unit_lowest(2) by (simp add: ex_unit_nth ex_unit_distances)
  moreover have "d ! 2 = Some 0"
    using all[rule_format, of 2 "{3}"] ex_unit_lowest(3) by (simp add: ex_unit_nth ex_unit_distances)
  ultimately show ?thesis using n d by simp
qed

text \<open>
  C2: the call ends with the RuntimeError "Zero components remain after density filtering"
  exactly when the density filter is applied (the call is not in the statistics-only mode, and
  the density was computed or loaded and matches the rows) and no row has a density below the
  threshold: every density is at or above it, or is nan. No other stage raises this error.
\<close>

theorem zero_rows_raise:
  "snd (consensus ext files k thr lns skip) = Some (Inl ZeroComponentsRemain) \<longleftrightarrow>
     (\<not> skip \<and>
      (\<exists>nn d. n_neighbors_of lns (length (merged_spectra files)) k = Inr nn \<and>
         snd (local_density_stage files nn (l2_normalize (merged_spectra files))) = Inr d \<and>
         length d = length (merged_spectra files) \<and>
         (\<forall>x\<in>set d. case x of None \<Rightarrow> True | Some v \<Rightarrow> thr \<le> v)))"
proof (cases "n_neighbors_of lns (length (merged_spectra files)) k")
  case (Inl e)
  from n_neighbors_error[OF Inl] filter_stage_div0[OF Inl, of thr skip] Inl
  show ?thesis by (auto simp: consensus_def)
next
  case (Inr nn)
  let ?l2 = "l2_normalize (merged_spectra files)"
  show ?thesis
  proof (cases skip)
    case True
    with filter_stage_skip[OF Inr, of thr] after_filter_not_zero[of ext files k thr True None ?l2]
    show ?thesis by (simp add: consensus_def)
  next
    case False
    obtain w r where st: "local_density_stage files nn ?l2 = (w, r)" by (cases "local_density_stage files nn ?l2")
    show ?thesis
    proof (cases r)
      case (Inl e)
      with local_density_stage_not_zero[of files nn ?l2] st have "e \<noteq> ZeroComponentsRemain" by auto
      with filter_stage_density_error[OF Inr st[unfolded Inl], of thr] False Inr st Inl
      show ?thesis by (simp add: consensus_def)
    next
      case d: (Inr d)
      note fs = filter_stage_density[OF Inr st[unfolded d], of thr]
      show ?thesis
      proof (cases "length d = length (merged_spectra files)")
        case ne: False
        with fs False Inr st d show ?thesis by (simp add: consensus_def)
      next
        case eq: True
        have emp: "select_rows (density_filter thr d) ?l2 = [] \<longleftrightarrow>
            (\<forall>x\<in>set d. case x of None \<Rightarrow> True | Some v \<Rightarrow> thr \<le> v)"
          using eq by (subst select_rows_empty)
            (simp_all add: length_density_filter length_l2_normalize density_filter_none_below)
        show ?thesis
        proof (cases "select_rows (density_filter thr d) ?l2 = []")
          case True
          with fs eq emp False Inr st d show ?thesis by (simp add: consensus_def)
        next
          case ne: False
          with fs eq emp False Inr st d
            after_filter_not_zero[of ext files k thr False "Some (d, density_filter thr d)"
              "select_rows (density_filter thr d) ?l2"]
          show ?thesis by (simp add: consensus_def)
        qed
      qed
    qed
  qed
qed

theorem zero_rows_raise_witness:
  "snd (consensus ex_ext ex_files 2 0 (1/2) False) = Some (Inl ZeroComponentsRemain)"
proof -
  have "n_neighbors_of (1/2) (length (merged_spectra ex_files)) 2 = Inr 1 \<and>
        snd (local_density_stage ex_files 1 (l2_normalize (merged_spectra ex_files)))
          = Inr [Some 0, Some 0, Some 0, Some 0] \<and>
        length [Some 0, Some 0, Some 0, Some (0::real)] = length (merged_spectra ex_files) \<and>
        (\<forall>x\<in>set [Some 0, Some 0, Some 0, Some (0::real)]. case x of None \<Rightarrow> True | Some v \<Rightarrow> 0 \<le> v)"
    by (simp add: ex_fields_files ex_n_neighbors ex_density_stage) (simp add: ex_spectra_def)
  then show ?thesis
    using zero_rows_raise[of ex_ext ex_files 2 0 "1/2" False] by blast
qed

text \<open>
  C3 as stated fails at equality: the filter keeps a row when its density is strictly below
  the threshold. With the cached densities 1/10, 1/10, 1/2, 1/2 and the threshold 1/2, which is
  their maximum, the last two rows are dropped.
\<close>

theorem threshold_at_max_drops_rows:
  "filter_stage (ex_files\<lparr>local_density_cache := Some [Some (1/10), Some (1/10), Some (1/2), Some (1/2)]\<rparr>)
      2 (1/2) (1/2) False =
     (None, Inr ([Some [1, 0], Some [1, 0]],
                 Some ([Some (1/10), Some (1/10), Some (1/2), Some (1/2)], [True, True, False, False])))"
proof -
  let ?f = "ex_files\<lparr>local_density_cache := Some [Some (1/10), Some (1/10), Some (1/2), Some (1/2)]\<rparr>"
  have m: "merged_spectra ?f = ex_spectra" by (simp add: ex_files_def)
  have n: "n_neighbors_of (1/2) (length (merged_spectra ?f)) 2 = Inr 1"
    unfolding m by (rule ex_n_neighbors)
  have s: "local_density_stage ?f 1 (l2_normalize (merged_spectra ?f)) =
      (None, Inr [Some (1/10), Some (1/10), Some (1/2), Some (1/2)])"
    by (simp add: local_density_stage_def)
  show ?thesis
    unfolding filter_stage_density[OF n s] m ex_l2
    by (simp add: ex_spectra_def density_filter_def select_rows_def)
qed

text \<open>
  C3, amended: when the threshold is strictly greater than every density (and there is at
  least one row), the filter keeps every row and the consensus ends as the unfiltered case
  does, with the same cache written.
\<close>

theorem threshold_above_max_keeps_all:
  assumes "n_neighbors_of lns (length (merged_spectra files)) k = Inr nn"
    and "local_density_stage files nn (l2_normalize (merged_spectra files)) = (w, Inr d)"
    and "length d = length (merged_spectra files)" and "merged_spectra files \<noteq> []"
    and "\<forall>x\<in>set d. \<exists>v. x = Some v \<and> v < thr"
  shows "filter_stage files k thr lns False =
           (w, Inr (l2_normalize (merged_spectra files), Some (d, replicate (length d) True))) \<and>
         consensus ext files k thr lns False = consensus_unfiltered ext files k thr lns"
proof -
  let ?l2 = "l2_normalize (merged_spectra files)"
  have f: "density_filter thr d = replicate (length d) True"
    by (rule density_filter_all_below[OF assms(5)])
  have sel: "select_rows (replicate (length d) True) ?l2 = ?l2"
    using assms(3) by (intro select_rows_all) (simp add: length_l2_normalize)
  have ne: "?l2 \<noteq> []" using assms(4) by (simp add: l2_normalize_def)
  have fs: "filter_stage files k thr lns False = (w, Inr (?l2, Some (d, replicate (length d) True)))"
    unfolding filter_stage_density[OF assms(1,2)] f sel using assms(3) ne by simp
  have us: "unfiltered_stage files k lns = (w, Inr (?l2, Some (d, replicate (length d) True)))"
    using assms(1,2) by (simp add: unfiltered_stage_def)
  show ?thesis by (simp add: fs consensus_def consensus_unfiltered_def us)
qed

theorem threshold_above_max_keeps_all_witness:
  "filter_stage ex_files 2 (1/2) (1/2) False =
     (Some [Some 0, Some 0, Some 0, Some 0],
      Inr ([Some [1, 0], Some [1, 0], Some [0, 1], Some [0, 1]],
           Some ([Some 0, Some 0, Some 0, Some 0], [True, True, True, True]))) \<and>
   consensus ex_ext ex_files 2 (1/2) (1/2) False = consensus_unfiltered ex_ext ex_files 2 (1/2) (1/2)"
proof -
  have a: "n_neighbors_of (1/2) (length (merged_spectra ex_files)) 2 = Inr 1"
    by (simp add: ex_fields_files ex_n_neighbors)
  have b: "local_density_stage ex_files 1 (l2_normalize (merged_spectra ex_files)) =
      (Some [Some 0, Some 0, Some 0, Some 0], Inr [Some 0, Some 0, Some 0, Some 0])"
    by (simp add: ex_fields_files ex_density_stage)
  have c: "length [Some 0, Some 0, Some 0, Some (0::real)] = length (merged_spectra ex_files)"
    "merged_spectra ex_files \<noteq> []"
    "\<forall>x\<in>set [Some 0, Some 0, Some 0, Some (0::real)]. \<exists>v. x = Some v \<and> v < 1/2"
    by (simp_all add: ex_fields_files ex_spectra_def)
  from threshold_above_max_keeps_all[OF a b c, of ex_ext]
  show ?thesis by (simp add: ex_fields_files ex_l2 numeral_eq_Suc)
qed




end
